theory Spec2Isabelle
  imports Main
begin

section \<open>Schema values as the healer sees them at run time\<close>

text \<open>
  The healer of \<^verbatim>\<open>docs/ref.ts\<close> receives its schema as a plain JavaScript value
  (the proxy hands over whatever \<^verbatim>\<open>JSON.parse\<close> produced from the request body), so the
  schema is modelled as a JSON value and the interface \<^verbatim>\<open>JsonSchema\<close> is the shape the
  code expects of it.  A number carries its JavaScript string rendering, the only thing
  besides truthiness the code could observe of it.  An object is an association list of
  its own properties (keys distinct, as in a JavaScript object).
\<close>

datatype json =
    JNull
  | JBool bool
  | JNum string
  | JStr string
  | JArr "json list"
  | JObj "(string \<times> json) list"

text \<open>JavaScript truthiness; \<open>None\<close> stands for \<^verbatim>\<open>undefined\<close>.\<close>

fun js_truthy :: "json \<Rightarrow> bool" where
  "js_truthy JNull = False"
| "js_truthy (JBool b) = b"
| "js_truthy (JNum n) = (n \<noteq> ''0'')"
| "js_truthy (JStr s) = (s \<noteq> [])"
| "js_truthy (JArr xs) = True"
| "js_truthy (JObj kvs) = True"

fun truthy :: "json option \<Rightarrow> bool" where
  "truthy None = False"
| "truthy (Some v) = js_truthy v"

text \<open>Decimal rendering of an array index, to decide whether a property key is one.\<close>

function dec_str :: "nat \<Rightarrow> string" where
  "dec_str n = (if n < 10 then [char_of (48 + n)]
                else dec_str (n div 10) @ [char_of (48 + n mod 10)])"
  by pat_completeness auto
termination
  by (relation "measure id") auto

declare dec_str.simps [simp del]

definition index_of_key :: "string \<Rightarrow> nat \<Rightarrow> nat option" where
  "index_of_key k n = find (\<lambda>i. dec_str i = k) [0..<n]"

text \<open>
  Property read \<^verbatim>\<open>v[k]\<close> on a truthy value.  Own properties only: an object's entries, and
  the indices and \<^verbatim>\<open>length\<close> of an array or a string.  Inherited properties (methods of
  the prototypes) are read as \<^verbatim>\<open>undefined\<close>: the values they yield are functions or
  prototype objects, which carry none of \<^verbatim>\<open>type\<close>, \<^verbatim>\<open>required\<close>, \<^verbatim>\<open>items\<close>,
  \<^verbatim>\<open>properties\<close>, so the traversal below ends with the empty list for them exactly as
  it does for \<^verbatim>\<open>undefined\<close>.
\<close>

fun js_get :: "json \<Rightarrow> string \<Rightarrow> json option" where
  "js_get (JObj kvs) k = map_of kvs k"
| "js_get (JArr xs) k =
     (if k = ''length'' then Some (JNum (dec_str (length xs)))
      else map_option (\<lambda>i. xs ! i) (index_of_key k (length xs)))"
| "js_get (JStr s) k =
     (if k = ''length'' then Some (JNum (dec_str (length s)))
      else map_option (\<lambda>i. JStr [s ! i]) (index_of_key k (length s)))"
| "js_get v k = None"

text \<open>\<^verbatim>\<open>Array.prototype.join\<close> on strings.\<close>

fun join :: "string \<Rightarrow> string list \<Rightarrow> string" where
  "join sep [] = []"
| "join sep [x] = x"
| "join sep (x # y # ys) = x @ sep @ join sep (y # ys)"

text \<open>
  The one error the healer can raise is a \<^verbatim>\<open>TypeError\<close>: from the string conversion of
  a key that has none, and from \<^verbatim>\<open>currentSchema.required.filter\<close> on a value that is not
  an array.
\<close>

datatype error = TypeError

text \<open>
  String conversion of a value inside a template literal (\<^verbatim>\<open>ToString\<close>).  An object is
  converted by its \<^verbatim>\<open>toString\<close> method and, failing that, by \<^verbatim>\<open>valueOf\<close>: an object
  without an own \<^verbatim>\<open>toString\<close> entry inherits the method that yields
  \<^verbatim>\<open>[object Object]\<close>; an own entry is a JSON value, not a function, and the inherited
  \<^verbatim>\<open>valueOf\<close> (or an own entry for it) yields no primitive value either, so the
  conversion raises.  An array is converted by joining the conversions of its elements,
  where \<^verbatim>\<open>null\<close> is the empty string; the conversion of an element may raise.
\<close>

fun js_to_string :: "json \<Rightarrow> error + string"
  and js_elems :: "json list \<Rightarrow> error + string list" where
  "js_to_string JNull = Inr ''null''"
| "js_to_string (JBool b) = Inr (if b then ''true'' else ''false'')"
| "js_to_string (JNum n) = Inr n"
| "js_to_string (JStr s) = Inr s"
| "js_to_string (JArr xs) =
     (case js_elems xs of Inl e \<Rightarrow> Inl e | Inr ss \<Rightarrow> Inr (join '','' ss))"
| "js_to_string (JObj kvs) =
     (if map_of kvs ''toString'' = None then Inr ''[object Object]'' else Inl TypeError)"
| "js_elems [] = Inr []"
| "js_elems (x # xs) =
     (case (if x = JNull then Inr [] else js_to_string x) of
        Inl e \<Rightarrow> Inl e
      | Inr s \<Rightarrow> (case js_elems xs of Inl e \<Rightarrow> Inl e | Inr ss \<Rightarrow> Inr (s # ss)))"

section \<open>The healer's state\<close>

record StackFrame =
  char :: char
  isObject :: bool
  keysSeen :: "string set"
  currentKey :: "string option"

record StreamHealer =
  buffer :: string
  hasStartedJson :: bool
  stack :: "StackFrame list"
  inString :: bool
  isEscaped :: bool
  pendingKeyBuffer :: string
  schema :: "json option"

definition MAX_PREAMBLE_BUFFER :: nat where
  "MAX_PREAMBLE_BUFFER = 500"

definition new_StreamHealer :: "json option \<Rightarrow> StreamHealer" where
  "new_StreamHealer sch =
     \<lparr>buffer = [], hasStartedJson = False, stack = [], inString = False,
      isEscaped = False, pendingKeyBuffer = [], schema = sch\<rparr>"

abbreviation backslash :: char where
  "backslash \<equiv> CHR 0x5C"

abbreviation dquote :: char where
  "dquote \<equiv> CHR 0x22"

section \<open>analyzeState\<close>

text \<open>
  The stack is a list with the root at index 0 and the innermost frame last, as the array
  of the source (\<^verbatim>\<open>push\<close> and \<^verbatim>\<open>pop\<close> work at the end).  \<open>modify_top\<close> is the in-place
  update of \<^verbatim>\<open>this.stack[this.stack.length - 1]\<close>.
\<close>

definition modify_top :: "(StackFrame \<Rightarrow> StackFrame) \<Rightarrow> StackFrame list \<Rightarrow> StackFrame list" where
  "modify_top f stk = butlast stk @ [f (last stk)]"

definition new_frame :: "char \<Rightarrow> bool \<Rightarrow> StackFrame" where
  "new_frame c obj = \<lparr>char = c, isObject = obj, keysSeen = {}, currentKey = None\<rparr>"

text \<open>The test \<^verbatim>\<open>top && top.isObject && top.currentKey === null\<close>.\<close>

definition awaiting_key :: "StreamHealer \<Rightarrow> bool" where
  "awaiting_key h \<longleftrightarrow>
     stack h \<noteq> [] \<and> isObject (last (stack h)) \<and> currentKey (last (stack h)) = None"

text \<open>One iteration of the loop of \<^verbatim>\<open>analyzeState\<close>.\<close>

definition analyzeChar :: "StreamHealer \<Rightarrow> char \<Rightarrow> StreamHealer" where
  "analyzeChar h c =
     (if inString h then
        (if isEscaped h then h\<lparr>isEscaped := False\<rparr>
         else if c = backslash then h\<lparr>isEscaped := True\<rparr>
         else if c = dquote then
           (if awaiting_key h
            then h\<lparr>inString := False,
                   stack := modify_top
                     (\<lambda>top. top\<lparr>currentKey := Some (pendingKeyBuffer h),
                                keysSeen := insert (pendingKeyBuffer h) (keysSeen top)\<rparr>)
                     (stack h)\<rparr>
            else h\<lparr>inString := False\<rparr>)
         else
           (if awaiting_key h
            then h\<lparr>pendingKeyBuffer := pendingKeyBuffer h @ [c]\<rparr>
            else h))
      else
        (if c = dquote then h\<lparr>inString := True, pendingKeyBuffer := []\<rparr>
         else if c = CHR '':'' then h
         else if c = CHR '','' then
           (if stack h \<noteq> [] \<and> isObject (last (stack h))
            then h\<lparr>stack := modify_top (\<lambda>top. top\<lparr>currentKey := None\<rparr>) (stack h)\<rparr>
            else h)
         else if c = CHR ''{'' then h\<lparr>stack := stack h @ [new_frame (CHR ''}'') True]\<rparr>
         else if c = CHR ''['' then h\<lparr>stack := stack h @ [new_frame (CHR '']'') False]\<rparr>
         else if c = CHR ''}'' \<or> c = CHR '']'' then
           (if stack h \<noteq> [] \<and> char (last (stack h)) = c
            then h\<lparr>stack := butlast (stack h)\<rparr>
            else h)
         else h))"

definition analyzeState :: "StreamHealer \<Rightarrow> string \<Rightarrow> StreamHealer" where
  "analyzeState h text = foldl analyzeChar h text"

section \<open>process\<close>

text \<open>\<^verbatim>\<open>buffer.search(/[{\[]/)\<close>: the index of the first opener, \<open>None\<close> for \<open>-1\<close>.\<close>

fun search_opener :: "string \<Rightarrow> nat option" where
  "search_opener [] = None"
| "search_opener (c # cs) =
     (if c = CHR ''{'' \<or> c = CHR ''['' then Some 0
      else map_option Suc (search_opener cs))"

text \<open>\<open>process\<close> returns the updated healer and the text handed to the caller.\<close>

definition process :: "StreamHealer \<Rightarrow> string \<Rightarrow> StreamHealer \<times> string" where
  "process h chunk =
     (if \<not> hasStartedJson h then
        (let buf = buffer h @ chunk in
         case search_opener buf of
           Some startIdx \<Rightarrow>
             (let validPayload = drop startIdx buf in
              (analyzeState (h\<lparr>buffer := [], hasStartedJson := True\<rparr>) validPayload,
               validPayload))
         | None \<Rightarrow>
             (if length buf > MAX_PREAMBLE_BUFFER
              then (analyzeState (h\<lparr>buffer := [], hasStartedJson := True\<rparr>) buf, buf)
              else (h\<lparr>buffer := buf\<rparr>, [])))
      else (analyzeState h chunk, chunk))"

section \<open>getMissingRequiredKeys and finish\<close>

text \<open>
  \<^verbatim>\<open>currentSchema.required.filter\<close> on a truthy value that is not an array raises a
  \<^verbatim>\<open>TypeError\<close>.
\<close>

text \<open>\<^verbatim>\<open>frame.keysSeen.has(req)\<close> on a set of strings.\<close>

fun keys_has :: "string set \<Rightarrow> json \<Rightarrow> bool" where
  "keys_has ks (JStr s) = (s \<in> ks)"
| "keys_has ks v = False"

text \<open>\<^verbatim>\<open>currentSchema.required.filter(req => !frame.keysSeen.has(req))\<close>.\<close>

fun filter_required :: "json \<Rightarrow> StackFrame \<Rightarrow> error + json list" where
  "filter_required (JArr reqs) frame = Inr (filter (\<lambda>req. \<not> keys_has (keysSeen frame) req) reqs)"
| "filter_required v frame = Inl TypeError"

text \<open>
  The loop of \<^verbatim>\<open>getMissingRequiredKeys\<close>, from index \<open>i\<close> on, with the current value of
  \<^verbatim>\<open>currentSchema\<close>.
\<close>

function gmrk_loop :: "StackFrame list \<Rightarrow> nat \<Rightarrow> nat \<Rightarrow> json option \<Rightarrow> error + json list" where
  "gmrk_loop stk stackIndex i currentSchema =
     (if i \<le> stackIndex then
        (if \<not> truthy currentSchema then Inr []
         else
           (let cs = the currentSchema; frame = stk ! i in
            if i = stackIndex then
              (if js_get cs ''type'' = Some (JStr ''object'') \<and> truthy (js_get cs ''required'')
               then filter_required (the (js_get cs ''required'')) frame
               else Inr [])
            else if \<not> isObject frame \<and> js_get cs ''type'' = Some (JStr ''array'')
                    \<and> truthy (js_get cs ''items'')
            then gmrk_loop stk stackIndex (i + 1) (js_get cs ''items'')
            else if isObject frame \<and> truthy (js_get cs ''properties'') then
              (if currentKey frame \<noteq> None \<and> currentKey frame \<noteq> Some []
                  \<and> truthy (js_get (the (js_get cs ''properties'')) (the (currentKey frame)))
               then gmrk_loop stk stackIndex (i + 1)
                      (js_get (the (js_get cs ''properties'')) (the (currentKey frame)))
               else gmrk_loop stk stackIndex (i + 1) None)
            else gmrk_loop stk stackIndex (i + 1) None))
      else Inr [])"
  by pat_completeness auto
termination
  by (relation "measure (\<lambda>(stk, stackIndex, i, cs). Suc stackIndex - i)") auto

declare gmrk_loop.simps [simp del]

definition getMissingRequiredKeys :: "json option \<Rightarrow> StackFrame list \<Rightarrow> nat \<Rightarrow> error + json list" where
  "getMissingRequiredKeys sch stk stackIndex =
     (if \<not> truthy sch then Inr [] else gmrk_loop stk stackIndex 0 sch)"

text \<open>
  \<^verbatim>\<open>missing.map(k => `"${k}":null`)\<close>: the entries in order, or the error of the first
  key without a string conversion.
\<close>

fun entries :: "json list \<Rightarrow> error + string list" where
  "entries [] = Inr []"
| "entries (k # ks) =
     (case js_to_string k of
        Inl e \<Rightarrow> Inl e
      | Inr s \<Rightarrow>
          (case entries ks of
             Inl e \<Rightarrow> Inl e
           | Inr ss \<Rightarrow> Inr (([dquote] @ s @ [dquote] @ '':null'') # ss)))"

text \<open>\<^verbatim>\<open>missing.map(k => `"${k}":null`).join(',')\<close>.\<close>

definition injection :: "json list \<Rightarrow> error + string" where
  "injection missing = (case entries missing of Inl e \<Rightarrow> Inl e | Inr ss \<Rightarrow> Inr (join '','' ss))"

text \<open>
  The loop of \<^verbatim>\<open>finish\<close>: the second argument is \<open>i + 1\<close> for the index \<open>i\<close> the loop
  is about to visit, so that it runs from the innermost frame down to index 0.
\<close>

fun finish_loop :: "json option \<Rightarrow> StackFrame list \<Rightarrow> nat \<Rightarrow> string \<Rightarrow> error + string" where
  "finish_loop sch stk 0 closure = Inr closure"
| "finish_loop sch stk (Suc i) closure =
     (let frame = stk ! i in
      if isObject frame \<and> truthy sch then
        (case getMissingRequiredKeys sch stk i of
           Inl e \<Rightarrow> Inl e
         | Inr missing \<Rightarrow>
             (if missing \<noteq> [] then
                (case injection missing of
                   Inl e \<Rightarrow> Inl e
                 | Inr injected \<Rightarrow>
                     finish_loop sch stk i
                       (closure @ (if keysSeen frame \<noteq> {} then '','' else []) @ injected
                          @ [char frame]))
              else finish_loop sch stk i (closure @ [char frame])))
      else finish_loop sch stk i (closure @ [char frame]))"

text \<open>
  \<open>finish\<close> returns the closing text, or the error the source raises.  The frame update
  it makes for an open string (\<^verbatim>\<open>keysSeen.add(pendingKeyBuffer)\<close>) is passed to the loop.
\<close>

definition finish :: "StreamHealer \<Rightarrow> error + string" where
  "finish h =
     (if \<not> hasStartedJson h \<and> buffer h = [] then Inr []
      else if \<not> hasStartedJson h \<and> buffer h \<noteq> [] then Inr (buffer h)
      else if inString h then
        (let stk = (if stack h \<noteq> [] \<and> isObject (last (stack h))
                    then modify_top (\<lambda>top. top\<lparr>keysSeen := insert (pendingKeyBuffer h) (keysSeen top)\<rparr>)
                           (stack h)
                    else stack h)
         in finish_loop (schema h) stk (length stk) [dquote])
      else finish_loop (schema h) (stack h) (length (stack h)) [])"

section \<open>The sub-schema that governs a frame\<close>

text \<open>
  The navigation of \<^verbatim>\<open>getMissingRequiredKeys\<close> taken by itself, to speak of schema paths
  that cannot be resolved.  \<open>descend frame cs\<close> is the value the loop body assigns to
  \<^verbatim>\<open>currentSchema\<close> for a frame above the target, \<open>None\<close> for \<^verbatim>\<open>undefined\<close>;
  \<open>governing fs sch\<close> is the value of \<^verbatim>\<open>currentSchema\<close> after the frames \<open>fs\<close>, root first,
  starting from \<open>sch\<close>, and \<open>None\<close> when the loop has met a falsy one.  The lemma
  \<open>gmrk_loop_governing\<close> below relates them to the loop.
\<close>

definition descend :: "StackFrame \<Rightarrow> json \<Rightarrow> json option" where
  "descend frame cs =
     (if \<not> isObject frame \<and> js_get cs ''type'' = Some (JStr ''array'')
         \<and> truthy (js_get cs ''items'')
      then js_get cs ''items''
      else if isObject frame \<and> truthy (js_get cs ''properties'') then
        (if currentKey frame \<noteq> None \<and> currentKey frame \<noteq> Some []
            \<and> truthy (js_get (the (js_get cs ''properties'')) (the (currentKey frame)))
         then js_get (the (js_get cs ''properties'')) (the (currentKey frame))
         else None)
      else None)"

fun governing :: "StackFrame list \<Rightarrow> json option \<Rightarrow> json option" where
  "governing [] cs = (if truthy cs then cs else None)"
| "governing (f # fs) cs = (if truthy cs then governing fs (descend f (the cs)) else None)"

section \<open>Driving the healer\<close>

text \<open>The caller's protocol: chunks are fed to \<open>process\<close> one after the other.\<close>

fun process_all :: "StreamHealer \<Rightarrow> string list \<Rightarrow> StreamHealer \<times> string list" where
  "process_all h [] = (h, [])"
| "process_all h (chunk # chunks) =
     (let (h1, out) = process h chunk; (h2, outs) = process_all h1 chunks in (h2, out # outs))"

definition is_opener :: "char \<Rightarrow> bool" where
  "is_opener c \<longleftrightarrow> c = CHR ''{'' \<or> c = CHR ''[''"

text \<open>One call of \<open>process\<close> on a fresh healer followed by \<open>finish\<close>.\<close>

definition heal :: "json option \<Rightarrow> string \<Rightarrow> string \<times> (error + string)" where
  "heal sch x = (let (h, out) = process (new_StreamHealer sch) x in (out, finish h))"

subsection \<open>Example schemas and states\<close>

definition schema_ab :: json where
  "schema_ab = JObj [(''required'', JArr [JStr ''a'', JStr ''b''])]"

definition schema_ab_typed :: json where
  "schema_ab_typed =
     JObj [(''type'', JStr ''object''), (''required'', JArr [JStr ''a'', JStr ''b''])]"

definition schema_user_ref :: json where
  "schema_user_ref =
     JObj [(''required'', JArr [JStr ''user'']),
           (''properties'', JObj [(''user'', JObj [(''$ref'', JStr ''#/definitions/User'')])]),
           (''definitions'',
              JObj [(''User'', JObj [(''required'', JArr [JStr ''name'', JStr ''id''])])])]"

definition state_in_key :: StreamHealer where
  \<open>state_in_key = analyzeState (new_StreamHealer None) ''{"a''\<close>

definition state_open_object :: StreamHealer where
  \<open>state_open_object = analyzeState (new_StreamHealer None) ''[{''\<close>

section \<open>Schemas without defaults, and schemas by their required lists\<close>

text \<open>
  \<open>without_defaults\<close> removes the \<^verbatim>\<open>default\<close> entry of a schema node and of every schema
  node below it, following \<^verbatim>\<open>items\<close> and the values of \<^verbatim>\<open>properties\<close>; it is used to say
  that the healer never reads a default.
\<close>


fun without_defaults :: "json \<Rightarrow> json"
  and without_defaults_props :: "json \<Rightarrow> json" where
  "without_defaults (JObj kvs) =
     JObj (map (\<lambda>(k, v). (k, if k = ''items'' then without_defaults v
                             else if k = ''properties'' then without_defaults_props v
                             else v))
            (filter (\<lambda>(k, v). k \<noteq> ''default'') kvs))"
| "without_defaults v = v"
| "without_defaults_props (JObj ps) = JObj (map (\<lambda>(k, v). (k, without_defaults v)) ps)"
| "without_defaults_props (JArr xs) = JArr (map without_defaults xs)"
| "without_defaults_props v = v"

text \<open>
  \<open>required_all P\<close> holds of a schema when \<open>P\<close> holds of every truthy \<^verbatim>\<open>required\<close> the
  healer can read: that of a node of type \<^verbatim>\<open>'object'\<close>, the schema itself or a node below
  it, through the \<^verbatim>\<open>items\<close> of a node of type \<^verbatim>\<open>'array'\<close> and through the values of
  \<^verbatim>\<open>properties\<close>.
\<close>

fun required_all :: "(json \<Rightarrow> bool) \<Rightarrow> json \<Rightarrow> bool"
  and required_all_props :: "(json \<Rightarrow> bool) \<Rightarrow> json \<Rightarrow> bool" where
  "required_all P (JObj kvs) =
     ((map_of kvs ''type'' = Some (JStr ''object'') \<longrightarrow>
         (case map_of kvs ''required'' of None \<Rightarrow> True | Some r \<Rightarrow> \<not> js_truthy r \<or> P r))
      \<and> (\<forall>(k, v) \<in> set kvs.
            (k = ''items'' \<and> map_of kvs ''type'' = Some (JStr ''array'') \<longrightarrow> required_all P v)
            \<and> (k = ''properties'' \<longrightarrow> required_all_props P v)))"
| "required_all P v = True"
| "required_all_props P (JObj ps) = (\<forall>(k, v) \<in> set ps. required_all P v)"
| "required_all_props P (JArr xs) = (\<forall>v \<in> set xs. required_all P v)"
| "required_all_props P v = True"

text \<open>
  \<open>keys_all P\<close> holds of a \<^verbatim>\<open>required\<close> value that is an array each of whose elements has
  a string conversion, which satisfies \<open>P\<close>.
\<close>

fun keys_all :: "(string \<Rightarrow> bool) \<Rightarrow> json \<Rightarrow> bool" where
  "keys_all P (JArr rs) =
     list_all (\<lambda>r. case js_to_string r of Inl e \<Rightarrow> False | Inr s \<Rightarrow> P s) rs"
| "keys_all P v = False"

text \<open>
  The schemas for which \<open>finish\<close> raises nothing: every \<^verbatim>\<open>required\<close> the healer can
  read is absent, falsy or an array of values that have a string conversion.
\<close>

definition ok_schema :: "json option \<Rightarrow> bool" where
  "ok_schema sch =
     (case sch of None \<Rightarrow> True | Some s \<Rightarrow> required_all (keys_all (\<lambda>k. True)) s)"

text \<open>The schema of the test \<^verbatim>\<open>should inject missing required fields with default values\<close>.\<close>

definition schema_defaults :: json where
  "schema_defaults =
     JObj [(''type'', JStr ''object''),
           (''required'', JArr [JStr ''a'', JStr ''b'', JStr ''c'']),
           (''properties'',
              JObj [(''b'', JObj [(''type'', JStr ''string''), (''default'', JStr ''default_value'')]),
                    (''c'', JObj [(''type'', JStr ''number''), (''default'', JNum ''42'')])])]"

text \<open>The schema of the test \<^verbatim>\<open>should resolve reference to definition\<close>.\<close>

definition schema_user_definition :: json where
  "schema_user_definition =
     JObj [(''type'', JStr ''object''), (''required'', JArr [JStr ''user'']),
           (''properties'', JObj [(''user'', JObj [(''$ref'', JStr ''#/definitions/User'')])]),
           (''definitions'',
              JObj [(''User'',
                     JObj [(''type'', JStr ''object''),
                           (''required'', JArr [JStr ''name'', JStr ''id'']),
                           (''properties'',
                              JObj [(''name'', JObj [(''type'', JStr ''string'')]),
                                    (''id'', JObj [(''type'', JStr ''number'')])])])])]"

definition schema_required_string :: json where
  "schema_required_string = JObj [(''type'', JStr ''object''), (''required'', JStr ''a'')]"

definition schema_required_object :: json where
  "schema_required_object =
     JObj [(''type'', JStr ''object''),
           (''required'', JArr [JObj [(''toString'', JNum ''1'')]])]"

text \<open>A schema with one required key.\<close>

definition schema_key :: "string \<Rightarrow> json" where
  "schema_key k = JObj [(''type'', JStr ''object''), (''required'', JArr [JStr k])]"

section \<open>Keys read back as strings, and closed states\<close>

text \<open>
  \<open>quotable_from esc k\<close>: scanned inside a string, with the escape flag \<open>esc\<close>, the text
  \<open>k\<close> holds no quote that ends the string and leaves no escape pending.  A key is
  quotable when the scanner reads the key between two quotes as one string.
\<close>

fun quotable_from :: "bool \<Rightarrow> string \<Rightarrow> bool" where
  "quotable_from esc [] = (\<not> esc)"
| "quotable_from esc (c # cs) =
     (if esc then quotable_from False cs
      else if c = backslash then quotable_from True cs
      else c \<noteq> dquote \<and> quotable_from False cs)"

definition quotable :: "string \<Rightarrow> bool" where
  "quotable k = quotable_from False k"

definition closers_ok :: "StackFrame list \<Rightarrow> bool" where
  "closers_ok stk \<longleftrightarrow> set (map char stk) \<subseteq> {CHR ''}'', CHR '']''}"

text \<open>
  The scanner's invariant: every frame closes with a bracket, and an escape is pending only
  inside a string.
\<close>

definition scan_inv :: "StreamHealer \<Rightarrow> bool" where
  "scan_inv h \<longleftrightarrow> closers_ok (stack h) \<and> (isEscaped h \<longrightarrow> inString h)"

definition closed_state :: "StreamHealer \<Rightarrow> bool" where
  "closed_state h \<longleftrightarrow> stack h = [] \<and> \<not> inString h"

text \<open>
  A text is neutral when scanning it outside a string ends outside a string with the same
  closers on the stack.
\<close>

definition neutral :: "string \<Rightarrow> bool" where
  "neutral t \<longleftrightarrow>
     (\<forall>g :: StreamHealer. \<not> inString g \<and> \<not> isEscaped g \<longrightarrow>
          \<not> inString (analyzeState g t) \<and> \<not> isEscaped (analyzeState g t)
          \<and> map char (stack (analyzeState g t)) = map char (stack g))"

text \<open>
  Schemas in which every \<^verbatim>\<open>required\<close> the healer can read is absent, falsy or an array of
  quotable keys.
\<close>

definition quotable_schema :: "json option \<Rightarrow> bool" where
  "quotable_schema sch =
     (case sch of None \<Rightarrow> True | Some s \<Rightarrow> required_all (keys_all quotable) s)"

text \<open>The text from its first opener on; empty when there is none.\<close>

definition strip_preamble :: "string \<Rightarrow> string" where
  "strip_preamble s = (case search_opener s of Some i \<Rightarrow> drop i s | None \<Rightarrow> [])"

text \<open>The healer right after it has found an opener, before scanning.\<close>

definition started :: "json option \<Rightarrow> StreamHealer" where
  "started sch = (new_StreamHealer sch)\<lparr>buffer := [], hasStartedJson := True\<rparr>"

section \<open>JSON texts\<close>

text \<open>
  A reader of JSON texts after RFC 8259 (what \<^verbatim>\<open>JSON.parse\<close> accepts), the judge of the
  well-formedness claim.  It reads a text character by character; its state is a mode and
  the open containers, innermost first (\<open>True\<close> for an object).  \<open>jstep\<close> is \<open>None\<close> where no
  JSON text continues with the character.
\<close>

definition is_ws :: "char \<Rightarrow> bool" where
  "is_ws c \<longleftrightarrow> c = CHR '' '' \<or> c = CHR 0x09 \<or> c = CHR 0x0A \<or> c = CHR 0x0D"

definition is_digit :: "char \<Rightarrow> bool" where
  "is_digit c \<longleftrightarrow> c \<in> set ''0123456789''"

definition is_hex :: "char \<Rightarrow> bool" where
  "is_hex c \<longleftrightarrow> c \<in> set ''0123456789abcdefABCDEF''"

text \<open>
  Inside a string: plain, right after a backslash, or with hexadecimal digits of a
  unicode escape still due.  Inside a number: the position in
  \<^verbatim>\<open>-? int frac? exp?\<close>.
\<close>

datatype strpos = SPlain | SEsc | SHex nat

datatype numpos = NMinus | NZero | NInt | NDot | NFrac | NExp | NExpSign | NExpDigits

text \<open>
  The modes: a value is due; a value or \<^verbatim>\<open>]\<close> (right after \<^verbatim>\<open>[\<close>); a key or \<^verbatim>\<open>}\<close> (right
  after \<^verbatim>\<open>{\<close>); a key (after a comma in an object); a colon; after a complete value;
  inside a string (a key when the flag is set); inside a number; inside a literal, with
  the characters still due.
\<close>

datatype jmode =
    MValue
  | MValueOrEnd
  | MKeyOrEnd
  | MKey
  | MColon
  | MAfter
  | MStr bool strpos
  | MNum numpos
  | MLit string

type_synonym jstate = "jmode \<times> bool list"

fun start_value :: "char \<Rightarrow> bool list \<Rightarrow> jstate option" where
  "start_value c stk =
     (if c = CHR ''{'' then Some (MKeyOrEnd, True # stk)
      else if c = CHR ''['' then Some (MValueOrEnd, False # stk)
      else if c = dquote then Some (MStr False SPlain, stk)
      else if c = CHR ''-'' then Some (MNum NMinus, stk)
      else if c = CHR ''0'' then Some (MNum NZero, stk)
      else if is_digit c then Some (MNum NInt, stk)
      else if c = CHR ''t'' then Some (MLit ''rue'', stk)
      else if c = CHR ''f'' then Some (MLit ''alse'', stk)
      else if c = CHR ''n'' then Some (MLit ''ull'', stk)
      else None)"

fun after_value :: "char \<Rightarrow> bool list \<Rightarrow> jstate option" where
  "after_value c stk =
     (if is_ws c then Some (MAfter, stk)
      else if c = CHR '','' then
        (case stk of [] \<Rightarrow> None | b # r \<Rightarrow> Some (if b then MKey else MValue, stk))
      else if c = CHR ''}'' then (case stk of True # r \<Rightarrow> Some (MAfter, r) | _ \<Rightarrow> None)
      else if c = CHR '']'' then (case stk of False # r \<Rightarrow> Some (MAfter, r) | _ \<Rightarrow> None)
      else None)"

fun str_step :: "strpos \<Rightarrow> char \<Rightarrow> strpos option option" where
  "str_step SPlain c =
     (if c = dquote then Some None
      else if c = backslash then Some (Some SEsc)
      else if (of_char c :: nat) < 32 then None
      else Some (Some SPlain))"
| "str_step SEsc c =
     (if c \<in> set ''bfnrt/'' \<or> c = dquote \<or> c = backslash then Some (Some SPlain)
      else if c = CHR ''u'' then Some (Some (SHex 4))
      else None)"
| "str_step (SHex n) c =
     (if is_hex c then Some (Some (if n \<le> 1 then SPlain else SHex (n - 1))) else None)"

fun num_step :: "numpos \<Rightarrow> char \<Rightarrow> numpos option" where
  "num_step NMinus c = (if c = CHR ''0'' then Some NZero else if is_digit c then Some NInt else None)"
| "num_step NZero c =
     (if c = CHR ''.'' then Some NDot else if c = CHR ''e'' \<or> c = CHR ''E'' then Some NExp else None)"
| "num_step NInt c =
     (if is_digit c then Some NInt else if c = CHR ''.'' then Some NDot
      else if c = CHR ''e'' \<or> c = CHR ''E'' then Some NExp else None)"
| "num_step NDot c = (if is_digit c then Some NFrac else None)"
| "num_step NFrac c =
     (if is_digit c then Some NFrac else if c = CHR ''e'' \<or> c = CHR ''E'' then Some NExp else None)"
| "num_step NExp c =
     (if c = CHR ''+'' \<or> c = CHR ''-'' then Some NExpSign else if is_digit c then Some NExpDigits
      else None)"
| "num_step NExpSign c = (if is_digit c then Some NExpDigits else None)"
| "num_step NExpDigits c = (if is_digit c then Some NExpDigits else None)"

fun num_final :: "numpos \<Rightarrow> bool" where
  "num_final NZero = True"
| "num_final NInt = True"
| "num_final NFrac = True"
| "num_final NExpDigits = True"
| "num_final n = False"

fun jstep :: "jstate \<Rightarrow> char \<Rightarrow> jstate option" where
  "jstep (MValue, stk) c = (if is_ws c then Some (MValue, stk) else start_value c stk)"
| "jstep (MValueOrEnd, stk) c =
     (if is_ws c then Some (MValueOrEnd, stk)
      else if c = CHR '']'' then (case stk of False # r \<Rightarrow> Some (MAfter, r) | _ \<Rightarrow> None)
      else start_value c stk)"
| "jstep (MKeyOrEnd, stk) c =
     (if is_ws c then Some (MKeyOrEnd, stk)
      else if c = CHR ''}'' then (case stk of True # r \<Rightarrow> Some (MAfter, r) | _ \<Rightarrow> None)
      else if c = dquote then Some (MStr True SPlain, stk)
      else None)"
| "jstep (MKey, stk) c =
     (if is_ws c then Some (MKey, stk)
      else if c = dquote then Some (MStr True SPlain, stk)
      else None)"
| "jstep (MColon, stk) c =
     (if is_ws c then Some (MColon, stk)
      else if c = CHR '':'' then Some (MValue, stk)
      else None)"
| "jstep (MAfter, stk) c = after_value c stk"
| "jstep (MStr k p, stk) c =
     (case str_step p c of
        None \<Rightarrow> None
      | Some None \<Rightarrow> Some (if k then MColon else MAfter, stk)
      | Some (Some p') \<Rightarrow> Some (MStr k p', stk))"
| "jstep (MNum n, stk) c =
     (case num_step n c of
        Some n' \<Rightarrow> Some (MNum n', stk)
      | None \<Rightarrow> if num_final n then after_value c stk else None)"
| "jstep (MLit r, stk) c =
     (case r of
        [] \<Rightarrow> None
      | c' # r' \<Rightarrow> if c = c' then Some (if r' = [] then MAfter else MLit r', stk) else None)"

fun jrun :: "jstate \<Rightarrow> string \<Rightarrow> jstate option" where
  "jrun st [] = Some st"
| "jrun st (c # cs) = (case jstep st c of None \<Rightarrow> None | Some st' \<Rightarrow> jrun st' cs)"

fun jfinal :: "jmode \<Rightarrow> bool" where
  "jfinal MAfter = True"
| "jfinal (MNum n) = num_final n"
| "jfinal m = False"

text \<open>
  \<open>str_body p k\<close>: read inside a string at position \<open>p\<close>, the text \<open>k\<close> is accepted and
  ends outside an escape sequence, without ending the string.  With \<open>SPlain\<close> these are
  the texts that, between two quotes, are a JSON string.
\<close>

fun str_body :: "strpos \<Rightarrow> string \<Rightarrow> bool" where
  "str_body p [] = (p = SPlain)"
| "str_body p (c # cs) =
     (case str_step p c of Some (Some p') \<Rightarrow> str_body p' cs | _ \<Rightarrow> False)"

text \<open>
  Schemas in which every \<^verbatim>\<open>required\<close> the healer can read is absent, falsy or an array of
  such keys.
\<close>

definition json_keys_schema :: "json option \<Rightarrow> bool" where
  "json_keys_schema sch =
     (case sch of None \<Rightarrow> True | Some s \<Rightarrow> required_all (keys_all (str_body SPlain)) s)"

text \<open>A text is a JSON document when the reader ends after a complete value with nothing open.\<close>

definition is_json :: "string \<Rightarrow> bool" where
  "is_json s = (case jrun (MValue, []) s of Some (m, []) \<Rightarrow> jfinal m | _ \<Rightarrow> False)"

text \<open>
  The points at which a document may be cut so that closing what is open completes it:
  after a complete value, inside a number that is complete so far, right after an opening
  bracket, or inside a string value outside an escape sequence.
\<close>

fun resumable :: "jmode \<Rightarrow> bool" where
  "resumable MAfter = True"
| "resumable (MNum n) = num_final n"
| "resumable MKeyOrEnd = True"
| "resumable MValueOrEnd = True"
| "resumable (MStr k p) = (\<not> k \<and> p = SPlain)"
| "resumable m = False"

definition resumable_cut :: "string \<Rightarrow> bool" where
  "resumable_cut p = (case jrun (MValue, []) p of Some (m, stk) \<Rightarrow> resumable m | None \<Rightarrow> False)"

section \<open>The scanner against the JSON reader\<close>

text \<open>
  The relation kept between the reader's state and the healer's while both read the same
  JSON text: the frames mirror the open containers and close with the matching bracket,
  the string flags agree, the innermost object frame expects a key exactly when the reader
  does, and every object frame that has a member has seen a key.
\<close>

definition closer_of :: "bool \<Rightarrow> char" where
  "closer_of b = (if b then CHR ''}'' else CHR '']'')"

fun in_str :: "jmode \<Rightarrow> bool" where
  "in_str (MStr k p) = True"
| "in_str m = False"

fun in_esc :: "jmode \<Rightarrow> bool" where
  "in_esc (MStr k SEsc) = True"
| "in_esc m = False"

fun wants_key :: "jmode \<Rightarrow> bool" where
  "wants_key MKeyOrEnd = True"
| "wants_key MKey = True"
| "wants_key (MStr k p) = k"
| "wants_key m = False"

fun has_member :: "jmode \<Rightarrow> bool" where
  "has_member MKeyOrEnd = False"
| "has_member MKey = False"
| "has_member MValueOrEnd = False"
| "has_member (MStr k p) = (\<not> k)"
| "has_member m = True"

definition frames :: "StreamHealer \<Rightarrow> StackFrame list" where
  "frames h = rev (stack h)"

definition frame_ok :: "StackFrame \<Rightarrow> bool" where
  "frame_ok f \<longleftrightarrow> char f = closer_of (isObject f)"

definition lower_ok :: "StackFrame \<Rightarrow> bool" where
  "lower_ok f \<longleftrightarrow> (isObject f \<longrightarrow> keysSeen f \<noteq> {})"

fun top_ok :: "jmode \<Rightarrow> StackFrame list \<Rightarrow> bool" where
  "top_ok m [] = (\<not> wants_key m \<and> m \<noteq> MValueOrEnd \<and> m \<noteq> MColon)"
| "top_ok m (f # r) =
     ((wants_key m \<longrightarrow> isObject f \<and> currentKey f = None)
      \<and> (m = MKeyOrEnd \<longrightarrow> keysSeen f = {})
      \<and> (m = MValueOrEnd \<longrightarrow> \<not> isObject f)
      \<and> (m = MColon \<longrightarrow> isObject f)
      \<and> (has_member m \<and> isObject f \<longrightarrow> keysSeen f \<noteq> {}))"

text \<open>Characters the scanner ignores outside a string.\<close>

definition inert :: "char \<Rightarrow> bool" where
  "inert c \<longleftrightarrow> c \<noteq> CHR ''{'' \<and> c \<noteq> CHR ''['' \<and> c \<noteq> CHR ''}'' \<and> c \<noteq> CHR '']''
                \<and> c \<noteq> CHR '','' \<and> c \<noteq> dquote"

fun lit_ok :: "jmode \<Rightarrow> bool" where
  "lit_ok (MLit r) = list_all inert r"
| "lit_ok m = True"

definition sim :: "jstate \<Rightarrow> StreamHealer \<Rightarrow> bool" where
  "sim st h \<longleftrightarrow>
     map isObject (frames h) = snd st
     \<and> lit_ok (fst st)
     \<and> list_all frame_ok (frames h)
     \<and> (inString h \<longleftrightarrow> in_str (fst st)) \<and> (isEscaped h \<longleftrightarrow> in_esc (fst st))
     \<and> top_ok (fst st) (frames h)
     \<and> list_all lower_ok (tl (frames h))"

definition entry :: "string \<Rightarrow> string" where
  "entry k = [dquote] @ k @ [dquote] @ '':null''"

fun after_like :: "jmode \<Rightarrow> bool" where
  "after_like MAfter = True"
| "after_like (MNum n) = num_final n"
| "after_like m = False"

text \<open>
  What the reader's mode says about the innermost open frame at a resumable point.
\<close>

fun resumable_top :: "jmode \<Rightarrow> StackFrame list \<Rightarrow> bool" where
  "resumable_top m [] = after_like m"
| "resumable_top m (f # fs) =
     ((after_like m \<and> (isObject f \<longrightarrow> keysSeen f \<noteq> {}))
      \<or> (m = MKeyOrEnd \<and> isObject f \<and> keysSeen f = {})
      \<or> (m = MValueOrEnd \<and> \<not> isObject f))"

subsection \<open>Example texts\<close>

definition text_after_colon :: string where
  \<open>text_after_colon = ''{"a":''\<close>

definition text_pending_escape :: string where
  \<open>text_pending_escape = ''["'' @ [backslash]\<close>

text \<open>A preamble of 501 characters without opener, the last one a quote.\<close>

definition long_preamble :: string where
  "long_preamble = replicate 500 (CHR ''x'') @ [dquote]"

definition chunks_nested :: "string list" where
  \<open>chunks_nested = [''{"a'', ''":{"x":["y'']\<close>

definition chunks_sure :: "string list" where
  \<open>chunks_sure = [''Sur'', ''e: {"a'', ''":1'']\<close>

section \<open>Basic facts\<close>

lemma analyzeChar_fixed [simp]:
  "hasStartedJson (analyzeChar h c) = hasStartedJson h"
  "buffer (analyzeChar h c) = buffer h"
  "schema (analyzeChar h c) = schema h"
  by (simp_all add: analyzeChar_def)

lemma analyzeState_fixed [simp]:
  "hasStartedJson (analyzeState h s) = hasStartedJson h"
  "buffer (analyzeState h s) = buffer h"
  "schema (analyzeState h s) = schema h"
  unfolding analyzeState_def by (induction s arbitrary: h) simp_all

lemma search_opener_None: "search_opener s = None \<longleftrightarrow> (\<forall>c \<in> set s. \<not> is_opener c)"
  by (induction s) (auto simp: is_opener_def)

lemma search_opener_Some:
  "search_opener s = Some i \<longleftrightarrow>
     i < length s \<and> is_opener (s ! i) \<and> (\<forall>j < i. \<not> is_opener (s ! j))"
proof (induction s arbitrary: i)
  case Nil
  show ?case by simp
next
  case (Cons c cs)
  show ?case
  proof (cases "is_opener c")
    case True
    then show ?thesis by (cases i) (auto simp: is_opener_def)
  next
    case False
    show ?thesis
    proof (cases i)
      case 0
      with False show ?thesis by (auto simp: is_opener_def)
    next
      case (Suc k)
      have "(\<forall>j < Suc k. \<not> is_opener ((c # cs) ! j)) \<longleftrightarrow> (\<forall>j < k. \<not> is_opener (cs ! j))"
        using False by (auto simp: less_Suc_eq_0_disj)
      with False Suc Cons.IH [of k] show ?thesis by (auto simp: is_opener_def)
    qed
  qed
qed

lemma process_started: "hasStartedJson h \<Longrightarrow> process h chunk = (analyzeState h chunk, chunk)"
  by (simp add: process_def)

lemma process_all_started:
  "hasStartedJson h \<Longrightarrow>
     snd (process_all h chunks) = chunks \<and> hasStartedJson (fst (process_all h chunks))"
proof (induction chunks arbitrary: h)
  case Nil
  then show ?case by simp
next
  case (Cons c cs)
  then have "hasStartedJson (analyzeState h c)" by simp
  from Cons.IH [OF this] Cons.prems show ?case
    by (auto simp add: process_started split: prod.splits)
qed

section \<open>Preamble stripping\<close>

text \<open>
  Claim C5.  Before JSON has started, \<open>process\<close> appends the chunk to the buffer and then
  (a) when the first opener of the buffer is at index \<open>i\<close>, drops the text before it, marks
  the healer started, empties the buffer and returns the buffer from \<open>i\<close> to its end;
  (b) when there is no opener and the buffer is longer than 500 characters, returns the whole
  buffer, marks the healer started, and returns every later chunk unchanged;
  (c) otherwise returns the empty string and keeps buffering.
\<close>

theorem process_preamble_cases:
  assumes "\<not> hasStartedJson h" and "buf = buffer h @ chunk"
  shows "(i < length buf \<and> is_opener (buf ! i) \<and> (\<forall>j < i. \<not> is_opener (buf ! j)) \<longrightarrow>
           snd (process h chunk) = drop i buf \<and> hasStartedJson (fst (process h chunk))
           \<and> buffer (fst (process h chunk)) = [])
       \<and> ((\<forall>c \<in> set buf. \<not> is_opener c) \<and> length buf > 500 \<longrightarrow>
           snd (process h chunk) = buf \<and> hasStartedJson (fst (process h chunk))
           \<and> snd (process_all (fst (process h chunk)) chunks) = chunks)
       \<and> ((\<forall>c \<in> set buf. \<not> is_opener c) \<and> length buf \<le> 500 \<longrightarrow>
           snd (process h chunk) = [] \<and> \<not> hasStartedJson (fst (process h chunk))
           \<and> buffer (fst (process h chunk)) = buf)"
proof (intro conjI impI)
  assume "i < length buf \<and> is_opener (buf ! i) \<and> (\<forall>j < i. \<not> is_opener (buf ! j))"
  then have "search_opener (buffer h @ chunk) = Some i"
    using assms(2) search_opener_Some by simp
  with assms show "snd (process h chunk) = drop i buf" "hasStartedJson (fst (process h chunk))"
    "buffer (fst (process h chunk)) = []"
    by (simp_all add: process_def Let_def)
next
  assume a: "(\<forall>c \<in> set buf. \<not> is_opener c) \<and> length buf > 500"
  then have "search_opener (buffer h @ chunk) = None"
    using assms(2) search_opener_None by simp
  with assms a show "snd (process h chunk) = buf" and s: "hasStartedJson (fst (process h chunk))"
    by (simp_all add: process_def MAX_PREAMBLE_BUFFER_def Let_def)
  from s show "snd (process_all (fst (process h chunk)) chunks) = chunks"
    by (simp add: process_all_started)
next
  assume a: "(\<forall>c \<in> set buf. \<not> is_opener c) \<and> length buf \<le> 500"
  then have "search_opener (buffer h @ chunk) = None"
    using assms(2) search_opener_None by simp
  with assms a show "snd (process h chunk) = []" "\<not> hasStartedJson (fst (process h chunk))"
    "buffer (fst (process h chunk)) = buf"
    by (simp_all add: process_def MAX_PREAMBLE_BUFFER_def Let_def)
qed

theorem process_preamble_cases_witness:
  \<open>(let h = (new_StreamHealer None)\<lparr>buffer := ''Sure: ''\<rparr>; chunk = ''ok {"a"''; i = 9 in
      \<not> hasStartedJson h \<and> i < length (buffer h @ chunk) \<and> is_opener ((buffer h @ chunk) ! i)
      \<and> (\<forall>j < i. \<not> is_opener ((buffer h @ chunk) ! j))
      \<and> snd (process h chunk) = ''{"a"'' \<and> hasStartedJson (fst (process h chunk)))
   \<and> (let h = (new_StreamHealer None)\<lparr>buffer := replicate 500 (CHR ''a'')\<rparr>; chunk = ''b'' in
      \<not> hasStartedJson h \<and> (\<forall>c \<in> set (buffer h @ chunk). \<not> is_opener c)
      \<and> length (buffer h @ chunk) > 500
      \<and> snd (process h chunk) = replicate 500 (CHR ''a'') @ ''b''
      \<and> snd (process_all (fst (process h chunk)) [''{"x'', ''y'']) = [''{"x'', ''y''])
   \<and> (let h = (new_StreamHealer None)\<lparr>buffer := ''Sure: ''\<rparr>; chunk = ''ok'' in
      \<not> hasStartedJson h \<and> (\<forall>c \<in> set (buffer h @ chunk). \<not> is_opener c)
      \<and> length (buffer h @ chunk) \<le> 500
      \<and> snd (process h chunk) = [] \<and> buffer (fst (process h chunk)) = ''Sure: ok'')\<close>
proof -
  let ?h1 = "(new_StreamHealer None)\<lparr>buffer := ''Sure: ''\<rparr>"
  let ?h2 = "(new_StreamHealer None)\<lparr>buffer := replicate 500 (CHR ''a'')\<rparr>"
  have n1: "\<not> hasStartedJson ?h1" and n2: "\<not> hasStartedJson ?h2"
    by (simp_all add: new_StreamHealer_def)
  have a: \<open>(9::nat) < length (buffer ?h1 @ ''ok {"a"'') \<and> is_opener ((buffer ?h1 @ ''ok {"a"'') ! 9)
      \<and> (\<forall>j < 9. \<not> is_opener ((buffer ?h1 @ ''ok {"a"'') ! j))\<close>
  proof -
    have \<open>search_opener (buffer ?h1 @ ''ok {"a"'') = Some 9\<close>
      by (simp add: new_StreamHealer_def)
    then show ?thesis
      using search_opener_Some by blast
  qed
  have b: "(\<forall>c \<in> set (buffer ?h2 @ ''b''). \<not> is_opener c) \<and> length (buffer ?h2 @ ''b'') > 500"
    by (simp add: new_StreamHealer_def is_opener_def)
  have c: "(\<forall>c \<in> set (buffer ?h1 @ ''ok''). \<not> is_opener c) \<and> length (buffer ?h1 @ ''ok'') \<le> 500"
    by (simp add: new_StreamHealer_def is_opener_def)
  have d: \<open>drop 9 (buffer ?h1 @ ''ok {"a"'') = ''{"a"''\<close>
    by (simp add: new_StreamHealer_def)
  from process_preamble_cases [OF n1 refl, of 9 \<open>''ok {"a"''\<close>] a d
  have 1: \<open>snd (process ?h1 ''ok {"a"'') = ''{"a"'' \<and> hasStartedJson (fst (process ?h1 ''ok {"a"''))\<close>
    by simp
  from process_preamble_cases [OF n2 refl, of _ "''b''" \<open>[''{"x'', ''y'']\<close>] b
  have 2: \<open>snd (process ?h2 ''b'') = buffer ?h2 @ ''b''
      \<and> snd (process_all (fst (process ?h2 ''b'')) [''{"x'', ''y'']) = [''{"x'', ''y'']\<close>
    by blast
  from process_preamble_cases [OF n1 refl, of _ "''ok''"] c
  have 3: "snd (process ?h1 ''ok'') = [] \<and> buffer (fst (process ?h1 ''ok'')) = buffer ?h1 @ ''ok''"
    by blast
  have e: "buffer ?h2 = replicate 500 (CHR ''a'')" "buffer ?h1 @ ''ok'' = ''Sure: ok''"
    by (simp_all add: new_StreamHealer_def)
  show ?thesis
    unfolding Let_def using n1 n2 a b c 1 2 3 e by simp
qed

section \<open>Streaming after the start\<close>

text \<open>
  Claim C10.  Once the healer has started, \<open>process\<close> returns its argument unchanged and
  the healer stays started, so every chunk of any later sequence of chunks is returned
  unchanged, whatever it contains.
\<close>

theorem process_after_start_verbatim:
  "hasStartedJson h \<Longrightarrow>
     snd (process h chunk) = chunk \<and> hasStartedJson (fst (process h chunk))
     \<and> snd (process_all h chunks) = chunks"
  using process_all_started by (simp add: process_started)

theorem process_after_start_verbatim_witness:
  \<open>hasStartedJson (fst (process (new_StreamHealer None) ''Hi {''))
   \<and> snd (process (fst (process (new_StreamHealer None) ''Hi {'')) ''}} not json'') = ''}} not json''
   \<and> snd (process_all (fst (process (new_StreamHealer None) ''Hi {'')) [''"a'', ''b]'', ''text''])
       = [''"a'', ''b]'', ''text'']\<close>
proof -
  have h: "hasStartedJson (fst (process (new_StreamHealer None) ''Hi {''))"
    by (simp add: process_def new_StreamHealer_def Let_def)
  from process_after_start_verbatim [OF h, of "''}} not json''" \<open>[''"a'', ''b]'', ''text'']\<close>] h
  show ?thesis by simp
qed

lemma modify_top_butlast [simp]: "butlast (modify_top f stk) = butlast stk"
  by (simp add: modify_top_def)

lemma modify_top_last [simp]: "last (modify_top f stk) = f (last stk)"
  by (simp add: modify_top_def)

lemma modify_top_not_Nil [simp]: "modify_top f stk \<noteq> []"
  by (simp add: modify_top_def)

lemma modify_top_length [simp]: "stk \<noteq> [] \<Longrightarrow> length (modify_top f stk) = length stk"
  by (simp add: modify_top_def)

lemma modify_top_map:
  assumes "stk \<noteq> []" and "g (f (last stk)) = g (last stk)"
  shows "map g (modify_top f stk) = map g stk"
proof -
  have "map g (modify_top f stk) = map g (butlast stk @ [last stk])"
    using assms(2) by (simp add: modify_top_def)
  with assms(1) show ?thesis by simp
qed

lemmas eval_defs = heal_def process_def new_StreamHealer_def analyzeState_def analyzeChar_def
  finish_def awaiting_key_def modify_top_def new_frame_def MAX_PREAMBLE_BUFFER_def
  getMissingRequiredKeys_def gmrk_loop.simps injection_def Let_def

section \<open>The stack outside strings\<close>

text \<open>
  Claim C6.  Outside a string, \<^verbatim>\<open>{\<close> pushes an object frame and \<^verbatim>\<open>[\<close> an array frame; a
  closer \<^verbatim>\<open>}\<close> or \<^verbatim>\<open>]\<close> pops the innermost frame when the stack is not empty and that
  frame's closer is the character, and leaves the stack as it is otherwise; every other
  character keeps the number of frames, their closers, kinds and seen keys, and all frames
  but the innermost (a comma only resets the innermost frame's current key).
\<close>

theorem stack_outside_string:
  assumes "\<not> inString h"
  shows "(c = CHR ''{'' \<longrightarrow>
            stack (analyzeChar h c)
              = stack h @ [\<lparr>char = CHR ''}'', isObject = True, keysSeen = {}, currentKey = None\<rparr>])
       \<and> (c = CHR ''['' \<longrightarrow>
            stack (analyzeChar h c)
              = stack h @ [\<lparr>char = CHR '']'', isObject = False, keysSeen = {}, currentKey = None\<rparr>])
       \<and> (c = CHR ''}'' \<or> c = CHR '']'' \<longrightarrow>
            (stack h \<noteq> [] \<and> char (last (stack h)) = c \<longrightarrow>
               stack (analyzeChar h c) = butlast (stack h))
          \<and> (\<not> (stack h \<noteq> [] \<and> char (last (stack h)) = c) \<longrightarrow>
               stack (analyzeChar h c) = stack h))
       \<and> (c \<noteq> CHR ''{'' \<and> c \<noteq> CHR ''['' \<and> c \<noteq> CHR ''}'' \<and> c \<noteq> CHR '']'' \<longrightarrow>
            length (stack (analyzeChar h c)) = length (stack h)
          \<and> map char (stack (analyzeChar h c)) = map char (stack h)
          \<and> map isObject (stack (analyzeChar h c)) = map isObject (stack h)
          \<and> map keysSeen (stack (analyzeChar h c)) = map keysSeen (stack h)
          \<and> butlast (stack (analyzeChar h c)) = butlast (stack h))"
  using assms
  by (auto simp add: analyzeChar_def new_frame_def modify_top_map)

theorem stack_outside_string_witness:
  "\<not> inString state_open_object
   \<and> map char (stack state_open_object) = '']}''
   \<and> map char (stack (analyzeChar state_open_object (CHR ''{''))) = '']}}''
   \<and> map char (stack (analyzeChar state_open_object (CHR ''[''))) = '']}]''
   \<and> map char (stack (analyzeChar state_open_object (CHR ''}''))) = '']''
   \<and> map char (stack (analyzeChar state_open_object (CHR '']''))) = '']}''
   \<and> map char (stack (analyzeChar state_open_object (CHR '',''))) = '']}''"
proof -
  have n: "\<not> inString state_open_object"
    and s: "stack state_open_object = [new_frame (CHR '']'') False, new_frame (CHR ''}'') True]"
    by (simp_all add: state_open_object_def eval_defs)
  from stack_outside_string [OF n, of "CHR ''{''"] stack_outside_string [OF n, of "CHR ''[''"]
    stack_outside_string [OF n, of "CHR ''}''"] stack_outside_string [OF n, of "CHR '']''"]
    stack_outside_string [OF n, of "CHR '',''"] n s
  show ?thesis by (simp add: new_frame_def)
qed

section \<open>The stack inside strings\<close>

text \<open>
  Claim C9, as stated, fails: the quote that ends a key string sets the current key of the
  innermost object frame.  After \<^verbatim>\<open>{"a\<close> the healer is inside a string and the frame's
  current key is unset; the next character \<^verbatim>\<open>"\<close> sets it to \<^verbatim>\<open>a\<close>.
\<close>

theorem in_string_current_key_counterexample:
  "inString state_in_key
   \<and> map currentKey (stack state_in_key) = [None]
   \<and> map currentKey (stack (analyzeChar state_in_key dquote)) = [Some ''a'']"
  by (simp add: state_in_key_def eval_defs)

text \<open>
  Claim C9, amended.  Inside a string no character pushes or pops: the number of frames,
  their closers and kinds, and all frames but the innermost stay as they are, and so do the
  buffer, the started flag and the schema.  The innermost frame changes only when an
  unescaped quote ends a string read while that frame is an object whose current key is
  unset; then its current key becomes the pending key buffer, which is also added to its
  seen keys.
\<close>

theorem stack_in_string:
  assumes "inString h"
  shows "length (stack (analyzeChar h c)) = length (stack h)
       \<and> map char (stack (analyzeChar h c)) = map char (stack h)
       \<and> map isObject (stack (analyzeChar h c)) = map isObject (stack h)
       \<and> butlast (stack (analyzeChar h c)) = butlast (stack h)
       \<and> buffer (analyzeChar h c) = buffer h
       \<and> hasStartedJson (analyzeChar h c) = hasStartedJson h
       \<and> schema (analyzeChar h c) = schema h
       \<and> (stack (analyzeChar h c) \<noteq> stack h \<longrightarrow>
            \<not> isEscaped h \<and> c = dquote \<and> awaiting_key h
            \<and> currentKey (last (stack (analyzeChar h c))) = Some (pendingKeyBuffer h)
            \<and> keysSeen (last (stack (analyzeChar h c)))
                = insert (pendingKeyBuffer h) (keysSeen (last (stack h))))"
  using assms
  by (auto simp add: analyzeChar_def awaiting_key_def modify_top_map)

theorem stack_in_string_witness:
  "inString state_in_key
   \<and> stack (analyzeChar state_in_key (CHR ''{'')) = stack state_in_key
   \<and> stack (analyzeChar state_in_key (CHR ''}'')) = stack state_in_key
   \<and> stack (analyzeChar state_in_key dquote) \<noteq> stack state_in_key
   \<and> \<not> isEscaped state_in_key \<and> awaiting_key state_in_key
   \<and> currentKey (last (stack (analyzeChar state_in_key dquote))) = Some (pendingKeyBuffer state_in_key)"
proof -
  have i: "inString state_in_key"
    by (simp add: state_in_key_def eval_defs)
  have d: "stack (analyzeChar state_in_key dquote) \<noteq> stack state_in_key"
    by (simp add: state_in_key_def eval_defs)
  from stack_in_string [OF i, of "CHR ''{''"] stack_in_string [OF i, of "CHR ''}''"]
    stack_in_string [OF i, of dquote] i d
  show ?thesis by auto
qed

section \<open>Missing keys of the root frame\<close>

text \<open>
  Claim C4, as stated, fails: the schema \<^verbatim>\<open>{required:['a','b']}\<close> has no \<^verbatim>\<open>type\<close>, and
  \<^verbatim>\<open>getMissingRequiredKeys\<close> reads \<^verbatim>\<open>required\<close> only under the guard
  \<^verbatim>\<open>currentSchema.type === 'object'\<close>.  Nothing is injected and \<open>finish\<close> returns \<^verbatim>\<open>}\<close>.
\<close>

theorem required_without_type_counterexample:
  \<open>heal (Some schema_ab) ''{"a":1'' = (''{"a":1'', Inr ''}'')
   \<and> heal (Some schema_ab) ''{"a":1'' \<noteq> (''{"a":1'', Inr '',"b":null}'')\<close>
  by (simp add: eval_defs schema_ab_def)

lemma keys_has_JStr:
  "filter (\<lambda>req. \<not> keys_has ks req) (map JStr reqs) = map JStr (filter (\<lambda>k. k \<notin> ks) reqs)"
  by (induction reqs) simp_all

lemma entries_JStr:
  "entries (map JStr ks) = Inr (map (\<lambda>k. [dquote] @ k @ [dquote] @ '':null'') ks)"
  by (induction ks) simp_all

lemma injection_JStr:
  "injection (map JStr ks) = Inr (join '','' (map (\<lambda>k. [dquote] @ k @ [dquote] @ '':null'') ks))"
  by (simp add: injection_def entries_JStr)

text \<open>
  Claim C4, amended.  For a started healer outside a string whose stack is one object
  frame, and a schema object whose \<^verbatim>\<open>required\<close> is a list of names: the missing keys are
  the required names not among the frame's seen keys, in the order of the list; they are
  injected, each as \<^verbatim>\<open>"k":null\<close>, exactly when the schema's \<^verbatim>\<open>type\<close> is \<^verbatim>\<open>'object'\<close> and
  some key is missing, with a leading comma exactly when the frame has seen a key; then the
  frame's closer follows.  With \<^verbatim>\<open>{type:'object', required:['a','b']}\<close> and the chunk
  \<^verbatim>\<open>{"a":1\<close>, \<open>finish\<close> returns \<^verbatim>\<open>,"b":null}\<close>.
\<close>

theorem finish_root_object:
  assumes "hasStartedJson h" and "\<not> inString h" and "stack h = [f]" and "isObject f"
    and "schema h = Some (JObj kvs)"
    and "map_of kvs ''required'' = Some (JArr (map JStr reqs))"
    and "missing = filter (\<lambda>k. k \<notin> keysSeen f) reqs"
  shows "finish h =
     Inr (if map_of kvs ''type'' = Some (JStr ''object'') \<and> missing \<noteq> []
          then (if keysSeen f \<noteq> {} then '','' else [])
               @ join '','' (map (\<lambda>k. [dquote] @ k @ [dquote] @ '':null'') missing) @ [char f]
          else [char f])"
  using assms
  by (simp add: finish_def getMissingRequiredKeys_def gmrk_loop.simps [of _ 0 0]
      keys_has_JStr injection_JStr)

theorem finish_root_object_witness:
  \<open>hasStartedJson (fst (process (new_StreamHealer (Some schema_ab_typed)) ''{"a":1''))
   \<and> \<not> inString (fst (process (new_StreamHealer (Some schema_ab_typed)) ''{"a":1''))
   \<and> stack (fst (process (new_StreamHealer (Some schema_ab_typed)) ''{"a":1''))
       = [\<lparr>char = CHR ''}'', isObject = True, keysSeen = {''a''}, currentKey = Some ''a''\<rparr>]
   \<and> finish (fst (process (new_StreamHealer (Some schema_ab_typed)) ''{"a":1''))
       = Inr '',"b":null}''\<close>
proof -
  let ?h = \<open>fst (process (new_StreamHealer (Some schema_ab_typed)) ''{"a":1'')\<close>
  let ?f = "\<lparr>char = CHR ''}'', isObject = True, keysSeen = {''a''}, currentKey = Some ''a''\<rparr>"
  let ?kvs = "[(''type'', JStr ''object''), (''required'', JArr [JStr ''a'', JStr ''b''])]"
  have a: "hasStartedJson ?h" "\<not> inString ?h" "stack ?h = [?f]" "schema ?h = Some (JObj ?kvs)"
    by (simp_all add: eval_defs schema_ab_typed_def)
  have b: "isObject ?f" "map_of ?kvs ''required'' = Some (JArr (map JStr [''a'', ''b'']))"
    by simp_all
  from finish_root_object [OF a(1) a(2) a(3) b(1) a(4) b(2) refl] a
  show ?thesis by simp
qed

section \<open>Sub-schemas given by a reference\<close>

text \<open>
  Claim C3 describes a resolver that follows \<^verbatim>\<open>$ref\<close>, and so does the repository's test
  \<^verbatim>\<open>should resolve reference to definition\<close>; the resolver of \<^verbatim>\<open>docs/ref.ts\<close> reads neither
  \<^verbatim>\<open>$ref\<close> nor any of the pools.  For the schema and the input of that test the property
  schema of \<^verbatim>\<open>user\<close> is the object \<^verbatim>\<open>{$ref:'#/definitions/User'}\<close>, which has no \<^verbatim>\<open>type\<close>:
  nothing is injected, and \<open>finish\<close> returns \<^verbatim>\<open>}}\<close> where the test expects
  \<^verbatim>\<open>,"id":null}}\<close>.  On the schema and the input of the claim \<open>finish\<close> returns \<^verbatim>\<open>}}\<close>
  as well.
\<close>

theorem reference_not_followed:
  \<open>heal (Some schema_user_definition) ''{"user": {"name": "Alice"''
     = (''{"user": {"name": "Alice"'', Inr ''}}'')
   \<and> heal (Some schema_user_definition) ''{"user": {"name": "Alice"''
     \<noteq> (''{"user": {"name": "Alice"'', Inr '',"id":null}}'')
   \<and> heal (Some schema_user_ref) ''{"user":{"name":"A"'' = (''{"user":{"name":"A"'', Inr ''}}'')\<close>
  by (simp add: eval_defs schema_user_definition_def schema_user_ref_def)

text \<open>
  The reason, for every schema: the sub-schema governing the frame below a root object
  frame is the value of \<^verbatim>\<open>properties[currentKey]\<close> itself, whatever else the root schema
  holds; the missing keys of that frame are decided by the \<^verbatim>\<open>type\<close> and \<^verbatim>\<open>required\<close> found
  in that value.
\<close>

lemma property_schema_taken_as_is:
  assumes "1 < length stk" and "isObject (stk ! 0)"
    and "currentKey (stk ! 0) = Some k" and "k \<noteq> []"
    and "map_of root ''properties'' = Some (JObj props)"
    and "map_of props k = Some (JObj sub)"
  shows "getMissingRequiredKeys (Some (JObj root)) stk 1 =
           (if map_of sub ''type'' = Some (JStr ''object'') \<and> truthy (map_of sub ''required'')
            then filter_required (the (map_of sub ''required'')) (stk ! 1)
            else Inr [])"
  using assms
  by (simp add: getMissingRequiredKeys_def gmrk_loop.simps [of _ "Suc 0" 0]
      gmrk_loop.simps [of _ "Suc 0" "Suc 0"])

section \<open>Facts about property reads\<close>

lemma dec_str_digits: "c \<in> set (dec_str n) \<Longrightarrow> 48 \<le> (of_char c :: nat) \<and> (of_char c :: nat) < 58"
proof (induction n rule: dec_str.induct)
  case (1 n)
  show ?case
  proof (cases "n < 10")
    case True
    with "1.prems" show ?thesis by (simp add: dec_str.simps [of n])
  next
    case False
    with "1.prems" have "c \<in> set (dec_str (n div 10)) \<or> c = char_of (48 + n mod 10)"
      by (auto simp add: dec_str.simps [of n])
    then show ?thesis
    proof
      assume "c \<in> set (dec_str (n div 10))"
      with False "1.IH" show ?thesis by simp
    next
      assume "c = char_of (48 + n mod 10)"
      moreover have "n mod 10 < 10" by simp
      ultimately show ?thesis by simp
    qed
  qed
qed

lemma index_of_key_bound: "index_of_key k n = Some i \<Longrightarrow> i < n \<and> dec_str i = k"
  by (auto simp add: index_of_key_def find_Some_iff)

lemma index_of_key_letter:
  assumes "c \<in> set k" and "\<not> (48 \<le> (of_char c :: nat) \<and> (of_char c :: nat) < 58)"
  shows "index_of_key k n = None"
proof (cases "index_of_key k n")
  case None
  then show ?thesis .
next
  case (Some i)
  then have "dec_str i = k" by (simp add: index_of_key_bound)
  with assms dec_str_digits [of c i] show ?thesis by simp
qed

lemma index_names [simp]:
  "index_of_key ''type'' n = None"
  "index_of_key ''required'' n = None"
  "index_of_key ''items'' n = None"
  "index_of_key ''properties'' n = None"
  by (rule index_of_key_letter [of "CHR ''e''"]; simp)+


lemma map_of_keyed_map_filter:
  "map_of (map (\<lambda>(k, v). (k, F k v)) (filter (\<lambda>(k, v). k \<noteq> d) kvs)) k
     = (if k = d then None else map_option (F k) (map_of kvs k))"
  by (induction kvs) auto

lemma wd_truthy [simp]:
  "js_truthy (without_defaults v) = js_truthy v"
  "js_truthy (without_defaults_props v) = js_truthy v"
  by (cases v; simp)+

lemma wd_get_other:
  assumes "k \<noteq> ''default''" and "k \<noteq> ''items''" and "k \<noteq> ''properties''"
  shows "js_get (without_defaults v) k = js_get v k"
proof (cases v)
  case (JObj kvs)
  have "map_option (\<lambda>v. v) (map_of kvs k) = map_of kvs k"
    by (cases "map_of kvs k") simp_all
  with JObj assms show ?thesis
    using map_of_keyed_map_filter
      [of "\<lambda>k v. if k = ''items'' then without_defaults v
                  else if k = ''properties'' then without_defaults_props v else v"
          "''default''" kvs k]
    by simp
qed simp_all

lemma wd_get_items:
  "js_get (without_defaults v) ''items'' = map_option without_defaults (js_get v ''items'')"
proof (cases v)
  case (JObj kvs)
  then show ?thesis
    using map_of_keyed_map_filter
      [of "\<lambda>k v. if k = ''items'' then without_defaults v
                  else if k = ''properties'' then without_defaults_props v else v"
          "''default''" kvs "''items''"]
    by simp
qed simp_all

lemma wd_get_properties:
  "js_get (without_defaults v) ''properties''
     = map_option without_defaults_props (js_get v ''properties'')"
proof (cases v)
  case (JObj kvs)
  then show ?thesis
    using map_of_keyed_map_filter
      [of "\<lambda>k v. if k = ''items'' then without_defaults v
                  else if k = ''properties'' then without_defaults_props v else v"
          "''default''" kvs "''properties''"]
    by simp
qed simp_all

lemma map_of_map_values: "map_of (map (\<lambda>(k, v). (k, f v)) ps) k = map_option f (map_of ps k)"
  by (induction ps) auto

lemma wdp_get: "js_get (without_defaults_props p) k = map_option without_defaults (js_get p k)"
proof (cases p)
  case (JObj ps)
  then show ?thesis by (simp add: map_of_map_values)
next
  case (JArr xs)
  show ?thesis
  proof (cases "index_of_key k (length xs)")
    case None
    with JArr show ?thesis by simp
  next
    case (Some i)
    then have "i < length xs" by (simp add: index_of_key_bound)
    with JArr Some show ?thesis by simp
  qed
next
  case (JStr s)
  then show ?thesis by (cases "index_of_key k (length s)") simp_all
qed simp_all

lemma truthy_without_defaults [simp]: "truthy (map_option without_defaults x) = truthy x"
  by (cases x) simp_all

lemma gmrk_without_defaults:
  "gmrk_loop stk n i (map_option without_defaults cs) = gmrk_loop stk n i cs"
proof (induction stk n i cs rule: gmrk_loop.induct)
  case (1 stk n i cs)
  show ?case
  proof (cases "truthy cs")
    case False
    then show ?thesis
      by (simp add: gmrk_loop.simps [of stk n i])
  next
    case True
    then obtain s where Some: "cs = Some s" by (cases cs) simp_all
    from True have tr: "\<not> \<not> truthy cs" by simp
    have t: "js_get (without_defaults s) ''type'' = js_get s ''type''"
      and r: "js_get (without_defaults s) ''required'' = js_get s ''required''"
      by (simp_all add: wd_get_other)
    have tp: "truthy (map_option without_defaults_props (js_get s ''properties''))
                = truthy (js_get s ''properties'')"
      by (cases "js_get s ''properties''") simp_all
    have tk: "truthy (js_get s ''properties'') \<Longrightarrow>
        js_get (the (map_option without_defaults_props (js_get s ''properties''))) k
          = map_option without_defaults (js_get (the (js_get s ''properties'')) k)" for k
      by (cases "js_get s ''properties''") (simp_all add: wdp_get)
    show ?thesis
    proof (cases "i \<le> n")
      case False
      then show ?thesis by (simp add: gmrk_loop.simps [of stk n i])
    next
      case le: True
      show ?thesis
      proof (cases "i = n")
        case True
        with Some \<open>truthy cs\<close> show ?thesis
          by (simp add: gmrk_loop.simps [of stk n n] t r)
      next
        case False
        with le Some \<open>truthy cs\<close> "1.IH" [OF le tr refl refl False] show ?thesis
          apply (subst gmrk_loop.simps [of stk n i "map_option without_defaults cs"])
          apply (subst gmrk_loop.simps [of stk n i cs])
          apply (simp add: t r wd_get_items wd_get_properties tp tk Let_def)
          done
      qed
    qed
  qed
qed

lemma getMissing_without_defaults:
  "getMissingRequiredKeys (map_option without_defaults sch) stk i = getMissingRequiredKeys sch stk i"
proof -
  have "truthy (map_option without_defaults sch) = truthy sch"
    by (cases sch) simp_all
  then show ?thesis
    by (simp add: getMissingRequiredKeys_def gmrk_without_defaults)
qed

lemma finish_loop_without_defaults:
  "finish_loop (map_option without_defaults sch) stk n closure = finish_loop sch stk n closure"
proof (induction n arbitrary: closure)
  case 0
  show ?case by simp
next
  case (Suc n)
  have "truthy (map_option without_defaults sch) = truthy sch"
    by (cases sch) simp_all
  with Suc show ?case
    by (simp add: getMissing_without_defaults Let_def split: sum.splits)
qed

lemma required_all_items:
  assumes "required_all P cs" and "js_get cs ''type'' = Some (JStr ''array'')"
    and "js_get cs ''items'' = Some v"
  shows "required_all P v"
proof (cases cs)
  case (JObj kvs)
  with assms(3) have "(''items'', v) \<in> set kvs" by (simp add: map_of_SomeD)
  with JObj assms(1,2) show ?thesis by auto
qed (use assms in simp_all)

lemma required_all_properties:
  assumes "required_all P cs" and "js_get cs ''properties'' = Some p"
  shows "required_all_props P p"
proof (cases cs)
  case (JObj kvs)
  with assms(2) have "(''properties'', p) \<in> set kvs" by (simp add: map_of_SomeD)
  with JObj assms(1) show ?thesis by auto
qed (use assms in simp_all)

lemma required_all_props_get:
  assumes "required_all_props P p" and "js_get p k = Some v"
  shows "required_all P v"
proof (cases p)
  case (JObj ps)
  with assms(2) have "(k, v) \<in> set ps" by (simp add: map_of_SomeD)
  with JObj assms(1) show ?thesis by auto
next
  case (JArr xs)
  show ?thesis
  proof (cases "k = ''length''")
    case True
    with JArr assms(2) show ?thesis by auto
  next
    case False
    with JArr assms(2) obtain i where "index_of_key k (length xs) = Some i" and "v = xs ! i"
      by auto
    moreover from this have "i < length xs" by (simp add: index_of_key_bound)
    ultimately have "v \<in> set xs" by simp
    with JArr assms(1) show ?thesis by simp
  qed
next
  case (JStr s)
  with assms(2) show ?thesis by (auto split: if_splits)
qed (use assms in simp_all)

lemma required_all_required:
  assumes "required_all P cs" and "js_get cs ''type'' = Some (JStr ''object'')"
    and "truthy (js_get cs ''required'')"
  shows "\<exists>r. js_get cs ''required'' = Some r \<and> P r"
proof (cases cs)
  case (JObj kvs)
  with assms obtain r where r: "map_of kvs ''required'' = Some r" "js_truthy r"
    by (cases "map_of kvs ''required''") auto
  with JObj assms(1,2) have "P r" by simp
  with JObj r show ?thesis by simp
qed (use assms in simp_all)

text \<open>
  What the loop of \<^verbatim>\<open>getMissingRequiredKeys\<close> can return: the empty list, or the filtered
  \<^verbatim>\<open>required\<close> of a schema node reached from the current one.
\<close>

lemma gmrk_result:
  assumes "cs = None \<or> (\<exists>s. cs = Some s \<and> required_all P s)"
  shows "gmrk_loop stk n i cs = Inr []
         \<or> (\<exists>r. P r \<and> gmrk_loop stk n i cs = filter_required r (stk ! n))"
  using assms
proof (induction stk n i cs rule: gmrk_loop.induct)
  case (1 stk n i cs)
  show ?case
  proof (cases "truthy cs")
    case False
    then show ?thesis by (simp add: gmrk_loop.simps [of stk n i])
  next
    case True
    then obtain s where Some: "cs = Some s" by (cases cs) simp_all
    from True have tr: "\<not> \<not> truthy cs" by simp
    from Some "1.prems" have s: "required_all P s" by simp
    show ?thesis
    proof (cases "i \<le> n")
      case False
      then show ?thesis by (simp add: gmrk_loop.simps [of stk n i])
    next
      case le: True
      show ?thesis
      proof (cases "i = n")
        case True
        show ?thesis
        proof (cases "js_get s ''type'' = Some (JStr ''object'') \<and> truthy (js_get s ''required'')")
          case True
          with required_all_required [OF s] obtain r where "js_get s ''required'' = Some r" "P r"
            by blast
          with True \<open>i = n\<close> Some \<open>truthy cs\<close> show ?thesis
            by (auto simp add: gmrk_loop.simps [of stk n n])
        next
          case False
          with \<open>i = n\<close> Some show ?thesis by (auto simp add: gmrk_loop.simps [of stk n n])
        qed
      next
        case False
        have items: "js_get s ''items'' = None
                     \<or> (\<exists>v. js_get s ''items'' = Some v \<and> required_all P v)"
          if "js_get s ''type'' = Some (JStr ''array'')"
          using required_all_items [OF s that] by (cases "js_get s ''items''") simp_all
        have props: "truthy (js_get s ''properties'') \<Longrightarrow>
                     js_get (the (js_get s ''properties'')) k = None
                     \<or> (\<exists>v. js_get (the (js_get s ''properties'')) k = Some v \<and> required_all P v)"
          for k
        proof -
          assume "truthy (js_get s ''properties'')"
          then obtain p where p: "js_get s ''properties'' = Some p"
            by (cases "js_get s ''properties''") simp_all
          from required_all_properties [OF s p] required_all_props_get [of P p k] show ?thesis
            using p by (cases "js_get p k") simp_all
        qed
        from "1.IH" [OF le tr refl refl False] items props le False Some \<open>truthy cs\<close> show ?thesis
          apply (subst (1 2) gmrk_loop.simps [of stk n i cs])
          apply (simp add: Let_def)
          done
      qed
    qed
  qed
qed

lemma filter_required_keys:
  assumes "keys_all P r"
  shows "\<exists>m. filter_required r f = Inr m \<and> (\<forall>k \<in> set m. \<exists>s. js_to_string k = Inr s \<and> P s)"
proof (cases r)
  case (JArr rs)
  have "\<exists>s. js_to_string k = Inr s \<and> P s" if "k \<in> set rs" for k
  proof -
    from that assms JArr have "case js_to_string k of Inl e \<Rightarrow> False | Inr s \<Rightarrow> P s"
      by (simp add: list_all_iff)
    then show ?thesis by (cases "js_to_string k") simp_all
  qed
  with JArr show ?thesis by auto
qed (use assms in simp_all)

text \<open>
  The missing keys of a frame, for a schema whose \<^verbatim>\<open>required\<close> lists are arrays of keys
  with a property \<open>P\<close>: there is no error, and the keys have the property.
\<close>

lemma getMissing_keys:
  assumes "sch = None \<or> (\<exists>s. sch = Some s \<and> required_all (keys_all P) s)"
  shows "\<exists>m. getMissingRequiredKeys sch stk i = Inr m
             \<and> (\<forall>k \<in> set m. \<exists>s. js_to_string k = Inr s \<and> P s)"
proof (cases "truthy sch")
  case False
  then show ?thesis by (simp add: getMissingRequiredKeys_def)
next
  case True
  from gmrk_result [OF assms, of stk i 0] show ?thesis
  proof
    assume "gmrk_loop stk i 0 sch = Inr []"
    with True show ?thesis by (simp add: getMissingRequiredKeys_def)
  next
    assume "\<exists>r. keys_all P r \<and> gmrk_loop stk i 0 sch = filter_required r (stk ! i)"
    then obtain r where r: "keys_all P r" and g: "gmrk_loop stk i 0 sch = filter_required r (stk ! i)"
      by blast
    from filter_required_keys [OF r, of "stk ! i"] g True show ?thesis
      by (simp add: getMissingRequiredKeys_def)
  qed
qed

lemma entries_keys:
  assumes "\<forall>k \<in> set m. \<exists>s. js_to_string k = Inr s \<and> P s"
  shows "\<exists>ks. entries m = Inr (map entry ks) \<and> length ks = length m \<and> (\<forall>k \<in> set ks. P k)"
  using assms
proof (induction m)
  case Nil
  show ?case by simp
next
  case (Cons k m)
  then obtain s where s: "js_to_string k = Inr s" "P s" by auto
  from Cons obtain ks where ks: "entries m = Inr (map entry ks)" "length ks = length m"
    "\<forall>k \<in> set ks. P k" by auto
  have "entries (k # m) = Inr (map entry (s # ks))"
    by (simp add: s(1) ks(1) entry_def)
  moreover have "length (s # ks) = length (k # m)" "\<forall>k \<in> set (s # ks). P k"
    using s(2) ks(2,3) by simp_all
  ultimately show ?case by blast
qed

text \<open>
  One round of the loop of \<open>finish\<close>, for such a schema: the frame's closer is appended,
  after the entries of some keys with the property (none, unless the frame is an object),
  which follow a comma when the frame has seen a key.
\<close>

lemma finish_loop_step:
  assumes "sch = None \<or> (\<exists>s. sch = Some s \<and> required_all (keys_all P) s)"
  shows "\<exists>ks. (\<forall>k \<in> set ks. P k) \<and> (ks \<noteq> [] \<longrightarrow> isObject (stk ! n))
            \<and> (\<forall>closure. finish_loop sch stk (Suc n) closure
                  = finish_loop sch stk n
                      (closure
                       @ (if ks = [] then []
                          else (if keysSeen (stk ! n) \<noteq> {} then '','' else [])
                               @ join '','' (map entry ks))
                       @ [char (stk ! n)]))"
proof (cases "isObject (stk ! n) \<and> truthy sch")
  case False
  then have "\<forall>closure. finish_loop sch stk (Suc n) closure
      = finish_loop sch stk n (closure @ [] @ [char (stk ! n)])"
    by (auto simp add: Let_def)
  then show ?thesis by (intro exI [of _ "[]"]) simp
next
  case True
  from getMissing_keys [OF assms, of stk n] obtain m
    where m: "getMissingRequiredKeys sch stk n = Inr m"
      "\<forall>k \<in> set m. \<exists>s. js_to_string k = Inr s \<and> P s"
    by blast
  from entries_keys [OF m(2)] obtain ks where ks: "entries m = Inr (map entry ks)"
    "length ks = length m" "\<forall>k \<in> set ks. P k" by blast
  from ks(2) have e: "ks = [] \<longleftrightarrow> m = []" by auto
  have "finish_loop sch stk (Suc n) closure
      = finish_loop sch stk n
          (closure
           @ (if ks = [] then []
              else (if keysSeen (stk ! n) \<noteq> {} then '','' else []) @ join '','' (map entry ks))
           @ [char (stk ! n)])" for closure
    using True m(1) ks(1) e by (simp add: Let_def injection_def)
  with ks(3) True show ?thesis by blast
qed

lemma ok_schema_cases:
  "ok_schema sch \<Longrightarrow> sch = None \<or> (\<exists>s. sch = Some s \<and> required_all (keys_all (\<lambda>k. True)) s)"
  by (cases sch) (simp_all add: ok_schema_def)

lemma finish_loop_text:
  assumes "ok_schema sch"
  shows "\<exists>F. \<forall>closure. finish_loop sch stk n closure = Inr (closure @ F)"
proof (induction n)
  case 0
  have "\<forall>closure. finish_loop sch stk 0 closure = Inr (closure @ [])" by simp
  then show ?case by blast
next
  case (Suc n)
  then obtain F where F: "\<And>closure. finish_loop sch stk n closure = Inr (closure @ F)"
    by blast
  from finish_loop_step [OF ok_schema_cases [OF assms], of stk n] obtain t
    where "\<And>closure. finish_loop sch stk (Suc n) closure = finish_loop sch stk n (closure @ t)"
    by blast
  with F have "\<forall>closure. finish_loop sch stk (Suc n) closure = Inr (closure @ (t @ F))"
    by simp
  then show ?case by blast
qed

lemma finish_no_error: "ok_schema (schema h) \<Longrightarrow> \<exists>t. finish h = Inr t"
proof -
  assume ok: "ok_schema (schema h)"
  have "\<exists>t. finish_loop (schema h) stk n closure = Inr t" for stk n closure
    using finish_loop_text [OF ok, of stk n] by auto
  then show ?thesis by (simp add: finish_def Let_def)
qed


lemma process_schema [simp]: "schema (fst (process h chunk)) = schema h"
  by (simp add: process_def Let_def split: option.splits)

lemma process_all_schema [simp]: "schema (fst (process_all h chunks)) = schema h"
proof (induction chunks arbitrary: h)
  case Nil
  show ?case by simp
next
  case (Cons c cs)
  obtain h1 out where p: "process h c = (h1, out)"
    by (cases "process h c")
  with process_schema [of h c] have "schema h1 = schema h" by simp
  with Cons.IH [of h1] p show ?case by (auto split: prod.splits)
qed

section \<open>Injected values\<close>

text \<open>
  Claim C2 describes an injection that writes the default of a missing key, and so does
  the repository's test \<^verbatim>\<open>should inject missing required fields with default values\<close>;
  \<open>finish\<close> of \<^verbatim>\<open>docs/ref.ts\<close> writes \<^verbatim>\<open>"k":null\<close> for every missing key.  For the schema and
  the input of that test, with the defaults \<^verbatim>\<open>"default_value"\<close> for \<^verbatim>\<open>b\<close> and \<^verbatim>\<open>42\<close> for
  \<^verbatim>\<open>c\<close>, \<open>finish\<close> returns \<^verbatim>\<open>,"b":null,"c":null}\<close> where the test expects
  \<^verbatim>\<open>,"b":"default_value","c":42}\<close>.
\<close>

theorem defaults_not_injected:
  \<open>heal (Some schema_defaults) ''{"a": 1'' = (''{"a": 1'', Inr '',"b":null,"c":null}'')
   \<and> heal (Some schema_defaults) ''{"a": 1''
     \<noteq> (''{"a": 1'', Inr '',"b":"default_value","c":42}'')\<close>
  by (simp add: eval_defs schema_defaults_def)

text \<open>
  The reason, for every schema and every state: \<open>finish\<close> never reads a default, it
  returns for a schema what it returns for that schema with every default removed.
\<close>

lemma finish_without_defaults:
  "finish (h\<lparr>schema := map_option without_defaults (schema h)\<rparr>) = finish h"
  by (simp add: finish_def finish_loop_without_defaults Let_def)

section \<open>Errors\<close>

text \<open>
  The loop of \<^verbatim>\<open>getMissingRequiredKeys\<close> in terms of the governing sub-schema: the missing
  keys are those of the sub-schema reached through the frames above the target, and there
  are none when the path to it cannot be resolved.
\<close>

lemma governing_falsy: "\<not> truthy cs \<Longrightarrow> governing fs cs = None"
  by (cases fs) simp_all

lemma gmrk_loop_governing:
  assumes "i \<le> n" and "n < length stk"
  shows "gmrk_loop stk n i cs =
     (case governing (take (n - i) (drop i stk)) cs of
        None \<Rightarrow> Inr []
      | Some s \<Rightarrow>
          if js_get s ''type'' = Some (JStr ''object'') \<and> truthy (js_get s ''required'')
          then filter_required (the (js_get s ''required'')) (stk ! n)
          else Inr [])"
  using assms
proof (induction stk n i cs rule: gmrk_loop.induct)
  case (1 stk n i cs)
  show ?case
  proof (cases "truthy cs")
    case False
    then show ?thesis by (simp add: gmrk_loop.simps [of stk n i] governing_falsy)
  next
    case True
    then obtain s where Some: "cs = Some s" by (cases cs) simp_all
    from True have tr: "\<not> \<not> truthy cs" by simp
    show ?thesis
    proof (cases "i = n")
      case True
      with Some \<open>truthy cs\<close> show ?thesis
        by (simp add: gmrk_loop.simps [of stk n n])
    next
      case False
      with "1.prems" have lt: "i < n" "i < length stk" by simp_all
      then have tk: "take (n - i) (drop i stk) = stk ! i # take (n - Suc i) (drop (Suc i) stk)"
        by (metis Cons_nth_drop_Suc Suc_diff_Suc take_Suc_Cons)
      from lt "1.prems" have p: "Suc i \<le> n" "n < length stk" by simp_all
      from "1.IH" [OF "1.prems"(1) tr refl refl False] p lt Some \<open>truthy cs\<close> False show ?thesis
        apply (subst gmrk_loop.simps [of stk n i cs])
        apply (simp add: Let_def tk descend_def)
        done
    qed
  qed
qed


lemma gmrk_loop_append:
  "i \<le> n \<Longrightarrow> n < length stk \<Longrightarrow> gmrk_loop (stk @ sfx) n i cs = gmrk_loop stk n i cs"
  by (simp add: gmrk_loop_governing nth_append split: option.splits)

lemma finish_loop_append:
  "n \<le> length stk \<Longrightarrow> finish_loop sch (stk @ sfx) n closure = finish_loop sch stk n closure"
proof (induction n arbitrary: closure)
  case 0
  show ?case by simp
next
  case (Suc n)
  then have n: "n < length stk" by simp
  then have g: "getMissingRequiredKeys sch (stk @ sfx) n = getMissingRequiredKeys sch stk n"
    by (simp add: getMissingRequiredKeys_def gmrk_loop_append)
  from n have f: "(stk @ sfx) ! n = stk ! n" by (simp add: nth_append)
  from n have "n \<le> length stk" by simp
  from Suc.IH [OF this] show ?case
    by (simp add: Let_def g f split: sum.splits)
qed

lemma process_unstarted:
  assumes "\<not> hasStartedJson h \<longrightarrow> stack h = []"
  shows "\<not> hasStartedJson (fst (process h chunk)) \<longrightarrow> stack (fst (process h chunk)) = []"
  using assms by (auto simp add: process_def Let_def split: option.splits)

lemma process_all_unstarted:
  assumes "\<not> hasStartedJson h \<longrightarrow> stack h = []"
  shows "\<not> hasStartedJson (fst (process_all h chunks)) \<longrightarrow> stack (fst (process_all h chunks)) = []"
  using assms
proof (induction chunks arbitrary: h)
  case Nil
  then show ?case by simp
next
  case (Cons c cs)
  obtain h1 out where p: "process h c = (h1, out)" by (cases "process h c")
  with process_unstarted [OF Cons.prems, of c] have "\<not> hasStartedJson h1 \<longrightarrow> stack h1 = []"
    by simp
  from Cons.IH [OF this] p show ?case by (auto split: prod.splits)
qed

lemma governing_None [simp]: "governing fs None = None"
  by (cases fs) simp_all

lemma governing_append: "governing (fs @ gs) cs = governing gs (governing fs cs)"
proof (induction fs arbitrary: cs)
  case Nil
  show ?case by (simp add: governing_falsy)
next
  case (Cons f fs)
  then show ?case by simp
qed

lemma finish_loop_unresolved:
  assumes "governing stk sch = None"
    and "\<And>closure. finish_loop sch stk (length stk) closure = Inr (closure @ F)"
  shows "finish_loop sch (stk @ gs) (length stk + length gs) closure
           = Inr (closure @ rev (map char gs) @ F)"
proof (induction gs arbitrary: closure rule: rev_induct)
  case Nil
  show ?case by (simp add: assms(2))
next
  case (snoc g gs)
  let ?n = "length stk + length gs"
  have "governing (take ?n ((stk @ gs) @ [g])) sch = None"
    by (simp add: governing_append assms(1))
  then have "gmrk_loop ((stk @ gs) @ [g]) ?n 0 sch = Inr []"
    by (simp add: gmrk_loop_governing del: append_assoc)
  then have "finish_loop sch ((stk @ gs) @ [g]) (Suc ?n) closure
      = finish_loop sch ((stk @ gs) @ [g]) ?n (closure @ [char g])"
    by (simp add: Let_def getMissingRequiredKeys_def nth_append del: append_assoc)
  also have "\<dots> = finish_loop sch (stk @ gs) ?n (closure @ [char g])"
    by (rule finish_loop_append) simp
  finally show ?case by (simp add: snoc.IH)
qed

lemma finish_unresolved_frames:
  assumes "ok_schema (schema h)" and "hasStartedJson h" and "stack h = stk @ fs" and "fs \<noteq> []"
    and "governing stk (schema h) = None"
  shows "\<exists>rest. finish (h\<lparr>stack := stk, inString := False\<rparr>) = Inr rest
            \<and> finish h = Inr ((if inString h then [dquote] else []) @ rev (map char fs) @ rest)"
proof -
  let ?sch = "schema h"
  from finish_loop_text [OF assms(1), of stk "length stk"] obtain F
    where F: "\<And>closure. finish_loop ?sch stk (length stk) closure = Inr (closure @ F)" by blast
  from assms(2) F [of "[]"] have 1: "finish (h\<lparr>stack := stk, inString := False\<rparr>) = Inr F"
    by (simp add: finish_def)
  note 2 = finish_loop_unresolved [OF assms(5) F]
  have 3: "finish h = Inr ((if inString h then [dquote] else []) @ rev (map char fs) @ F)"
  proof (cases "inString h")
    case False
    with assms(2,3) 2 [of fs "[]"] show ?thesis by (simp add: finish_def)
  next
    case True
    define gs where "gs = (if isObject (last fs)
      then modify_top (\<lambda>top. top\<lparr>keysSeen := insert (pendingKeyBuffer h) (keysSeen top)\<rparr>) fs
      else fs)"
    have m: "modify_top t (stk @ fs) = stk @ modify_top t fs" for t
      using assms(4) by (simp add: modify_top_def butlast_append)
    have "(if stack h \<noteq> [] \<and> isObject (last (stack h))
      then modify_top (\<lambda>top. top\<lparr>keysSeen := insert (pendingKeyBuffer h) (keysSeen top)\<rparr>) (stack h)
      else stack h) = stk @ gs"
      using assms(4) by (simp add: assms(3) gs_def m)
    with True assms(2) have "finish h = finish_loop ?sch (stk @ gs) (length (stk @ gs)) [dquote]"
      by (simp add: finish_def Let_def)
    moreover have "map char gs = map char fs" "length gs = length fs"
      using assms(4) by (simp_all add: gs_def modify_top_map)
    ultimately show ?thesis using 2 [of gs "[dquote]"] True by simp
  qed
  from 1 3 show ?thesis by blast
qed

text \<open>
  Claim C8, as stated, fails for a malformed schema.  When the governing sub-schema has
  \<^verbatim>\<open>type: 'object'\<close> and a truthy \<^verbatim>\<open>required\<close> that is not an array, the call
  \<^verbatim>\<open>currentSchema.required.filter\<close> raises a \<^verbatim>\<open>TypeError\<close> out of \<open>finish\<close>; when
  \<^verbatim>\<open>required\<close> is an array with a missing element that has no string conversion, such as
  the object \<^verbatim>\<open>{toString:1}\<close>, the template literal that writes the key raises one.
\<close>

theorem malformed_required_counterexample:
  "heal (Some schema_required_string) ''{'' = (''{'', Inl TypeError)
   \<and> heal (Some schema_required_object) ''{'' = (''{'', Inl TypeError)"
  by (simp add: eval_defs schema_required_string_def schema_required_object_def)

text \<open>
  Claim C8, amended.  \<open>process\<close> has no failing step.  For every schema in which each
  \<^verbatim>\<open>required\<close> the healer can read (that of a sub-schema of type \<^verbatim>\<open>'object'\<close>) is absent,
  falsy or an array of values that have a string conversion, and every sequence of chunks,
  \<open>finish\<close> returns a text and raises nothing.  Where the schema path cannot be resolved
  for the frames \<open>stk\<close>, every frame below them is closed without injection: \<open>finish\<close>
  returns the quote that closes an open string, the closers of those frames, innermost
  first, and then what it returns for the frames \<open>stk\<close> alone.
\<close>

theorem finish_total_for_typed_schema:
  assumes "ok_schema sch" and "process_all (new_StreamHealer sch) chunks = (h, outs)"
  shows "(\<exists>t. finish h = Inr t)
       \<and> (stack h = stk @ fs \<and> fs \<noteq> [] \<and> governing stk sch = None
          \<longrightarrow> (\<exists>rest. finish (h\<lparr>stack := stk, inString := False\<rparr>) = Inr rest
                   \<and> finish h = Inr ((if inString h then [dquote] else [])
                                      @ rev (map char fs) @ rest)))"
proof (intro conjI impI)
  from assms(2) have h: "h = fst (process_all (new_StreamHealer sch) chunks)" by simp
  then have sch: "schema h = sch" by (simp add: new_StreamHealer_def)
  with assms(1) finish_no_error [of h] show "\<exists>t. finish h = Inr t" by simp
  assume a: "stack h = stk @ fs \<and> fs \<noteq> [] \<and> governing stk sch = None"
  have "\<not> hasStartedJson (new_StreamHealer sch) \<longrightarrow> stack (new_StreamHealer sch) = []"
    by (simp add: new_StreamHealer_def)
  from process_all_unstarted [OF this, of chunks] a h have st: "hasStartedJson h" by auto
  from finish_unresolved_frames [of h stk fs] assms(1) sch st a
  show "\<exists>rest. finish (h\<lparr>stack := stk, inString := False\<rparr>) = Inr rest
      \<and> finish h = Inr ((if inString h then [dquote] else []) @ rev (map char fs) @ rest)"
    by simp
qed

theorem finish_total_for_typed_schema_witness:
  \<open>ok_schema (Some schema_ab_typed)
   \<and> stack (fst (process_all (new_StreamHealer (Some schema_ab_typed)) chunks_nested))
       = [\<lparr>char = CHR ''}'', isObject = True, keysSeen = {''a''}, currentKey = Some ''a''\<rparr>]
         @ [\<lparr>char = CHR ''}'', isObject = True, keysSeen = {''x''}, currentKey = Some ''x''\<rparr>,
            \<lparr>char = CHR '']'', isObject = False, keysSeen = {}, currentKey = None\<rparr>]
   \<and> governing
         [\<lparr>char = CHR ''}'', isObject = True, keysSeen = {''a''}, currentKey = Some ''a''\<rparr>]
         (Some schema_ab_typed) = None
   \<and> inString (fst (process_all (new_StreamHealer (Some schema_ab_typed)) chunks_nested))
   \<and> finish ((fst (process_all (new_StreamHealer (Some schema_ab_typed)) chunks_nested))
               \<lparr>stack := [\<lparr>char = CHR ''}'', isObject = True, keysSeen = {''a''},
                             currentKey = Some ''a''\<rparr>],
                 inString := False\<rparr>) = Inr '',"b":null}''
   \<and> finish (fst (process_all (new_StreamHealer (Some schema_ab_typed)) chunks_nested))
       = Inr ''"]},"b":null}''\<close>
proof -
  let ?sch = "Some schema_ab_typed"
  let ?h = "fst (process_all (new_StreamHealer ?sch) chunks_nested)"
  let ?outs = "snd (process_all (new_StreamHealer ?sch) chunks_nested)"
  let ?stk = "[\<lparr>char = CHR ''}'', isObject = True, keysSeen = {''a''}, currentKey = Some ''a''\<rparr>]"
  let ?fs = "[\<lparr>char = CHR ''}'', isObject = True, keysSeen = {''x''}, currentKey = Some ''x''\<rparr>,
              \<lparr>char = CHR '']'', isObject = False, keysSeen = {}, currentKey = None\<rparr>]"
  have ok: "ok_schema ?sch"
    by (simp add: ok_schema_def schema_ab_typed_def)
  have pr: "process_all (new_StreamHealer ?sch) chunks_nested = (?h, ?outs)"
    by simp
  have a: "stack ?h = ?stk @ ?fs" "inString ?h"
    by (simp_all add: eval_defs chunks_nested_def)
  have g: "governing ?stk ?sch = None"
    by (simp add: descend_def schema_ab_typed_def)
  have p: \<open>finish (?h\<lparr>stack := ?stk, inString := False\<rparr>) = Inr '',"b":null}''\<close>
    by (simp add: eval_defs chunks_nested_def schema_ab_typed_def)
  from finish_total_for_typed_schema [OF ok pr, of ?stk ?fs] a g p
  have \<open>finish ?h = Inr ''"]},"b":null}''\<close>
    by simp
  with ok a g p show ?thesis by simp
qed

section \<open>Closing what is open\<close>

lemma closers_ok_butlast: "closers_ok stk \<Longrightarrow> closers_ok (butlast stk)"
proof -
  assume "closers_ok stk"
  moreover have "set (butlast (map char stk)) \<subseteq> set (map char stk)"
    by (auto dest: in_set_butlastD)
  ultimately show ?thesis
    unfolding closers_ok_def map_butlast by blast
qed

lemma closers_ok_map: "map char stk' = map char stk \<Longrightarrow> closers_ok stk' = closers_ok stk"
  by (simp add: closers_ok_def)

lemma closers_ok_push:
  "closers_ok stk \<Longrightarrow> closers_ok (stk @ [new_frame (CHR ''}'') obj])"
  "closers_ok stk \<Longrightarrow> closers_ok (stk @ [new_frame (CHR '']'') obj])"
  by (simp_all add: closers_ok_def new_frame_def)

lemma analyzeChar_closers:
  "map char (stack (analyzeChar h c)) = map char (stack h)
   \<or> stack (analyzeChar h c) = butlast (stack h)
   \<or> stack (analyzeChar h c) = stack h @ [new_frame (CHR ''}'') True]
   \<or> stack (analyzeChar h c) = stack h @ [new_frame (CHR '']'') False]"
  by (auto simp add: analyzeChar_def awaiting_key_def modify_top_map)

lemma analyzeChar_escape: "isEscaped h \<longrightarrow> inString h \<Longrightarrow>
    isEscaped (analyzeChar h c) \<longrightarrow> inString (analyzeChar h c)"
  by (simp add: analyzeChar_def)

lemma analyzeChar_inv: "scan_inv h \<Longrightarrow> scan_inv (analyzeChar h c)"
proof -
  assume a: "scan_inv h"
  then have ok: "closers_ok (stack h)" by (simp add: scan_inv_def)
  from a have e: "isEscaped (analyzeChar h c) \<longrightarrow> inString (analyzeChar h c)"
    using analyzeChar_escape [of h c] by (simp add: scan_inv_def)
  from analyzeChar_closers [of h c] have "closers_ok (stack (analyzeChar h c))"
  proof (elim disjE)
    assume "map char (stack (analyzeChar h c)) = map char (stack h)"
    with ok closers_ok_map show ?thesis by blast
  next
    assume "stack (analyzeChar h c) = butlast (stack h)"
    with ok closers_ok_butlast show ?thesis by simp
  next
    assume "stack (analyzeChar h c) = stack h @ [new_frame (CHR ''}'') True]"
    with ok closers_ok_push(1) show ?thesis by simp
  next
    assume "stack (analyzeChar h c) = stack h @ [new_frame (CHR '']'') False]"
    with ok closers_ok_push(2) show ?thesis by simp
  qed
  with e show ?thesis by (simp add: scan_inv_def)
qed

lemma analyzeState_Nil [simp]: "analyzeState h [] = h"
  by (simp add: analyzeState_def)

lemma analyzeState_Cons: "analyzeState h (c # cs) = analyzeState (analyzeChar h c) cs"
  by (simp add: analyzeState_def)

lemma analyzeState_append [simp]: "analyzeState h (s @ t) = analyzeState (analyzeState h s) t"
  by (simp add: analyzeState_def)

lemma analyzeState_inv: "scan_inv h \<Longrightarrow> scan_inv (analyzeState h s)"
  by (induction s arbitrary: h) (simp_all add: analyzeChar_inv analyzeState_Cons)

lemma new_inv [simp]: "scan_inv (new_StreamHealer sch)"
  by (simp add: scan_inv_def closers_ok_def new_StreamHealer_def)

lemma neutral_Nil [simp]: "neutral []"
  by (simp add: neutral_def)

lemma neutral_append: "neutral s \<Longrightarrow> neutral t \<Longrightarrow> neutral (s @ t)"
  by (simp add: neutral_def)

lemma scan_quotable:
  assumes "inString g" and "isEscaped g = esc" and "quotable_from esc s"
  shows "inString (analyzeState g s) \<and> \<not> isEscaped (analyzeState g s)
         \<and> stack (analyzeState g s) = stack g"
  using assms
proof (induction s arbitrary: g esc)
  case Nil
  then show ?case by simp
next
  case (Cons c cs)
  define esc' where "esc' = (\<not> esc \<and> c = backslash)"
  from Cons.prems(3) have q: "quotable_from esc' cs" and c: "esc \<or> c \<noteq> dquote"
    by (auto simp add: esc'_def split: if_splits)
  from Cons.prems(1,2) c have "inString (analyzeChar g c)" "isEscaped (analyzeChar g c) = esc'"
    "stack (analyzeChar g c) = stack g"
    by (auto simp add: analyzeChar_def esc'_def)
  with Cons.IH [of "analyzeChar g c" esc'] q show ?case by (simp add: analyzeState_Cons)
qed

lemma neutral_entry:
  assumes "quotable k"
  shows "neutral (entry k)"
  unfolding neutral_def
proof (intro allI impI)
  fix g :: StreamHealer
  assume g: "\<not> inString g \<and> \<not> isEscaped g"
  let ?g1 = "analyzeChar g dquote"
  have 1: "inString ?g1" "isEscaped ?g1 = False" "stack ?g1 = stack g"
    using g by (simp_all add: analyzeChar_def)
  let ?g2 = "analyzeState ?g1 k"
  from assms have "quotable_from False k" by (simp add: quotable_def)
  from scan_quotable [OF 1(1) 1(2) this] 1(3)
  have 2: "inString ?g2" "\<not> isEscaped ?g2" "stack ?g2 = stack g" by simp_all
  let ?g3 = "analyzeChar ?g2 dquote"
  have 3: "\<not> inString ?g3" "\<not> isEscaped ?g3" "map char (stack ?g3) = map char (stack g)"
    using 2 by (auto simp add: analyzeChar_def awaiting_key_def modify_top_map)
  have 4: "analyzeState ?g3 '':null'' = ?g3"
    using 3(1) by (simp add: analyzeChar_def analyzeState_Cons)
  have "analyzeState g (entry k) = analyzeState ?g3 '':null''"
    by (simp add: analyzeState_Cons entry_def)
  with 3 4 show "\<not> inString (analyzeState g (entry k))
     \<and> \<not> isEscaped (analyzeState g (entry k))
     \<and> map char (stack (analyzeState g (entry k))) = map char (stack g)"
    by simp
qed

lemma neutral_comma: "neutral '',''"
  by (auto simp add: neutral_def analyzeChar_def modify_top_map analyzeState_Cons)

lemma neutral_join:
  "(\<forall>t \<in> set ts. neutral t) \<Longrightarrow> neutral (join '','' ts)"
proof (induction ts)
  case Nil
  show ?case by simp
next
  case (Cons x xs)
  show ?case
  proof (cases xs)
    case Nil
    with Cons.prems show ?thesis by simp
  next
    case (Cons y ys)
    from Cons.prems Cons.IH have r: "neutral (join '','' xs)" and x: "neutral x" by simp_all
    from neutral_append [OF neutral_comma r] have "neutral ('','' @ join '','' xs)" .
    from neutral_append [OF x this] Cons show ?thesis by simp
  qed
qed

lemma neutral_entries:
  "\<forall>k \<in> set ks. quotable k \<Longrightarrow> neutral (join '','' (map entry ks))"
  using neutral_entry by (intro neutral_join) auto

lemma quotable_schema_cases:
  "quotable_schema sch \<Longrightarrow> sch = None \<or> (\<exists>s. sch = Some s \<and> required_all (keys_all quotable) s)"
  by (cases sch) (simp_all add: quotable_schema_def)

lemma pop_closer:
  assumes "\<not> inString g" and "map char (stack g) = cs @ [c]" and "c = CHR ''}'' \<or> c = CHR '']''"
  shows "analyzeChar g c = g\<lparr>stack := butlast (stack g)\<rparr>"
proof -
  from assms(2) have ne: "stack g \<noteq> []" by auto
  with assms(2) have "char (last (stack g)) = c"
    by (metis last_map last_snoc)
  with ne assms(1,3) show ?thesis by (auto simp add: analyzeChar_def)
qed

lemma finish_loop_closes:
  assumes "quotable_schema sch" and "closers_ok stk" and "n \<le> length stk"
  shows "\<exists>F. (\<forall>closure. finish_loop sch stk n closure = Inr (closure @ F))
            \<and> (\<forall>g :: StreamHealer. \<not> inString g \<and> \<not> isEscaped g
                    \<and> map char (stack g) = map char (take n stk)
                  \<longrightarrow> closed_state (analyzeState g F))"
  using assms(3)
proof (induction n)
  case 0
  have "\<forall>closure. finish_loop sch stk 0 closure = Inr (closure @ [])" by simp
  moreover have "\<forall>g :: StreamHealer. \<not> inString g \<and> \<not> isEscaped g
                    \<and> map char (stack g) = map char (take 0 stk)
                  \<longrightarrow> closed_state (analyzeState g [])"
    by (simp add: closed_state_def)
  ultimately show ?case by blast
next
  case (Suc n)
  then have n: "n < length stk" by simp
  with Suc obtain F where F1: "\<And>closure. finish_loop sch stk n closure = Inr (closure @ F)"
    and F2: "\<And>g :: StreamHealer. \<not> inString g \<Longrightarrow> \<not> isEscaped g \<Longrightarrow>
               map char (stack g) = map char (take n stk) \<Longrightarrow> closed_state (analyzeState g F)"
    by auto
  let ?frame = "stk ! n"
  from finish_loop_step [OF quotable_schema_cases [OF assms(1)], of stk n] obtain ks
    where ks: "\<forall>k \<in> set ks. quotable k"
      and st: "\<And>closure. finish_loop sch stk (Suc n) closure
                 = finish_loop sch stk n
                     (closure
                      @ (if ks = [] then []
                         else (if keysSeen ?frame \<noteq> {} then '','' else [])
                              @ join '','' (map entry ks))
                      @ [char ?frame])"
    by blast
  define inj where "inj = (if ks = [] then []
                           else (if keysSeen ?frame \<noteq> {} then '','' else [])
                                @ join '','' (map entry ks))"
  have neu: "neutral inj"
    unfolding inj_def using neutral_entries [OF ks] neutral_comma
    by (simp add: neutral_append)
  have step: "finish_loop sch stk (Suc n) closure = finish_loop sch stk n (closure @ inj @ [char ?frame])"
    for closure
    unfolding inj_def by (rule st)
  have c: "char ?frame = CHR ''}'' \<or> char ?frame = CHR '']''"
  proof -
    from n have "char ?frame \<in> set (map char stk)" by simp
    with assms(2) show ?thesis unfolding closers_ok_def by blast
  qed
  have 1: "\<forall>closure. finish_loop sch stk (Suc n) closure = Inr (closure @ (inj @ [char ?frame] @ F))"
    by (simp only: step F1 append_assoc simp_thms)
  have 2: "closed_state (analyzeState g (inj @ [char ?frame] @ F))"
    if g: "\<not> inString g" "\<not> isEscaped g" "map char (stack g) = map char (take (Suc n) stk)"
    for g :: StreamHealer
  proof -
    let ?g1 = "analyzeState g inj"
    from neu g have g1: "\<not> inString ?g1" "\<not> isEscaped ?g1" "map char (stack ?g1) = map char (stack g)"
      by (simp_all add: neutral_def)
    from g(3) n have "map char (stack g) = map char (take n stk) @ [char ?frame]"
      by (simp add: take_Suc_conv_app_nth)
    with g1 have s1: "map char (stack ?g1) = map char (take n stk) @ [char ?frame]" by simp
    let ?g2 = "analyzeChar ?g1 (char ?frame)"
    from pop_closer [OF g1(1) s1 c] have g2: "?g2 = ?g1\<lparr>stack := butlast (stack ?g1)\<rparr>" .
    have "map char (butlast (stack ?g1)) = butlast (map char (stack ?g1))"
      by (simp add: map_butlast)
    with s1 have "map char (stack ?g2) = map char (take n stk)"
      by (simp add: g2)
    moreover have "\<not> inString ?g2" "\<not> isEscaped ?g2" using g1 by (simp_all add: g2)
    ultimately have "closed_state (analyzeState ?g2 F)" using F2 by blast
    then show ?thesis by (simp add: analyzeState_Cons)
  qed
  from 1 2 show ?case by blast
qed

lemma finish_closes:
  assumes "scan_inv h" and "hasStartedJson h" and "quotable_schema (schema h)"
    and "\<not> (inString h \<and> isEscaped h)"
  shows "\<exists>F. finish h = Inr F \<and> closed_state (analyzeState h F)"
proof (cases "inString h")
  case False
  with assms(1) have e: "\<not> isEscaped h" by (auto simp add: scan_inv_def)
  from assms(1) have "closers_ok (stack h)" by (simp add: scan_inv_def)
  from finish_loop_closes [OF assms(3) this le_refl] obtain F
    where F1: "\<And>closure. finish_loop (schema h) (stack h) (length (stack h)) closure = Inr (closure @ F)"
    and F2: "\<And>g :: StreamHealer. \<not> inString g \<Longrightarrow> \<not> isEscaped g \<Longrightarrow>
               map char (stack g) = map char (take (length (stack h)) (stack h))
               \<Longrightarrow> closed_state (analyzeState g F)"
    by blast
  from False assms(2) F1 [of "[]"] have "finish h = Inr F" by (simp add: finish_def)
  moreover from F2 [of h] False e have "closed_state (analyzeState h F)" by simp
  ultimately show ?thesis by blast
next
  case True
  with assms(4) have e: "\<not> isEscaped h" by simp
  define stk where "stk = (if stack h \<noteq> [] \<and> isObject (last (stack h))
      then modify_top (\<lambda>top. top\<lparr>keysSeen := insert (pendingKeyBuffer h) (keysSeen top)\<rparr>) (stack h)
      else stack h)"
  have ms: "map char stk = map char (stack h)"
    by (simp add: stk_def modify_top_map)
  with assms(1) have "closers_ok stk" by (simp add: scan_inv_def closers_ok_def)
  from finish_loop_closes [OF assms(3) this le_refl] obtain F
    where F1: "\<And>closure. finish_loop (schema h) stk (length stk) closure = Inr (closure @ F)"
    and F2: "\<And>g :: StreamHealer. \<not> inString g \<Longrightarrow> \<not> isEscaped g \<Longrightarrow>
               map char (stack g) = map char (take (length stk) stk)
               \<Longrightarrow> closed_state (analyzeState g F)"
    by blast
  from True assms(2) have "finish h = finish_loop (schema h) stk (length stk) [dquote]"
    unfolding stk_def by (simp add: finish_def Let_def)
  with F1 [of "[dquote]"] have f: "finish h = Inr ([dquote] @ F)" by simp
  let ?g = "analyzeChar h dquote"
  have g: "\<not> inString ?g \<and> \<not> isEscaped ?g \<and> map char (stack ?g) = map char (stack h)"
  proof (cases "awaiting_key h")
    case True
    with \<open>inString h\<close> e show ?thesis
      by (simp add: analyzeChar_def awaiting_key_def modify_top_map)
  next
    case False
    with \<open>inString h\<close> e show ?thesis
      by (simp add: analyzeChar_def)
  qed
  from ms have "map char (take (length stk) stk) = map char (stack h)" by simp
  with F2 [of ?g] g have "closed_state (analyzeState ?g F)" by simp
  then have "closed_state (analyzeState h ([dquote] @ F))" by (simp add: analyzeState_Cons)
  with f show ?thesis by blast
qed

lemma analyzeChar_other_fields:
  "analyzeChar (g\<lparr>buffer := b, hasStartedJson := st, schema := sch\<rparr>) c
     = (analyzeChar g c)\<lparr>buffer := b, hasStartedJson := st, schema := sch\<rparr>"
  by (simp add: analyzeChar_def awaiting_key_def)

lemma analyzeState_other_fields:
  "analyzeState (g\<lparr>buffer := b, hasStartedJson := st, schema := sch\<rparr>) t
     = (analyzeState g t)\<lparr>buffer := b, hasStartedJson := st, schema := sch\<rparr>"
  by (induction t arbitrary: g) (simp_all add: analyzeChar_other_fields analyzeState_Cons)

lemma started_scan:
  "analyzeState (started sch) t
     = (analyzeState (new_StreamHealer None) t)\<lparr>buffer := [], hasStartedJson := True, schema := sch\<rparr>"
proof -
  have "started sch = (new_StreamHealer None)\<lparr>buffer := [], hasStartedJson := True, schema := sch\<rparr>"
    by (simp add: started_def new_StreamHealer_def)
  then show ?thesis by (simp only: analyzeState_other_fields)
qed

lemma started_inv [simp]: "scan_inv (started sch)"
  by (simp add: started_def scan_inv_def closers_ok_def new_StreamHealer_def)

lemma started_fields [simp]:
  "hasStartedJson (started sch)" "schema (started sch) = sch" "buffer (started sch) = []"
  by (simp_all add: started_def new_StreamHealer_def)

lemma finish_closed:
  assumes "hasStartedJson h" and "closed_state h"
  shows "finish h = Inr []"
  using assms by (simp add: finish_def closed_state_def)

lemma scan_no_opener:
  assumes "\<forall>c \<in> set t. \<not> is_opener c" and "stack g = []"
  shows "stack (analyzeState g t) = []"
  using assms
proof (induction t arbitrary: g)
  case Nil
  then show ?case by simp
next
  case (Cons c cs)
  then have "c \<noteq> CHR ''{''" "c \<noteq> CHR ''[''" by (auto simp add: is_opener_def)
  with Cons.prems(2) have "stack (analyzeChar g c) = []"
    by (simp add: analyzeChar_def awaiting_key_def)
  with Cons show ?case by (simp add: analyzeState_Cons)
qed

lemma search_opener_head: "is_opener c \<Longrightarrow> search_opener (c # cs) = Some 0"
  by (simp add: is_opener_def)

lemma search_opener_drop:
  "search_opener s = Some i \<Longrightarrow> \<exists>c cs. drop i s = c # cs \<and> is_opener c"
proof -
  assume "search_opener s = Some i"
  then have "i < length s" "is_opener (s ! i)" by (simp_all add: search_opener_Some)
  then show ?thesis by (auto simp add: Cons_nth_drop_Suc [symmetric])
qed

lemma process_fresh:
  "process (new_StreamHealer sch) x =
     (case search_opener x of
        Some i \<Rightarrow> (analyzeState (started sch) (drop i x), drop i x)
      | None \<Rightarrow> if length x > MAX_PREAMBLE_BUFFER then (analyzeState (started sch) x, x)
                else ((new_StreamHealer sch)\<lparr>buffer := x\<rparr>, []))"
  by (simp add: process_def new_StreamHealer_def started_def Let_def split: option.splits)

lemma fresh_empty:
  "process (new_StreamHealer sch) [] = (new_StreamHealer sch, [])"
  "finish (new_StreamHealer sch) = Inr []"
  by (simp_all add: process_def finish_def new_StreamHealer_def MAX_PREAMBLE_BUFFER_def)

lemma process_all_started_state:
  "hasStartedJson h \<Longrightarrow> process_all h chunks = (analyzeState h (concat chunks), chunks)"
proof (induction chunks arbitrary: h)
  case Nil
  show ?case by simp
next
  case (Cons c cs)
  then have "hasStartedJson (analyzeState h c)" by simp
  from Cons.IH [OF this] Cons.prems show ?case
    by (simp add: process_started)
qed

lemma process_buffering:
  assumes "\<not> hasStartedJson h" and "\<forall>c \<in> set (buffer h @ chunk). \<not> is_opener c"
    and "length (buffer h @ chunk) \<le> 500"
  shows "process h chunk = (h\<lparr>buffer := buffer h @ chunk\<rparr>, [])"
proof -
  from assms(2) have "search_opener (buffer h @ chunk) = None"
    by (simp only: search_opener_None)
  with assms(1,3) show ?thesis
    by (simp add: process_def MAX_PREAMBLE_BUFFER_def Let_def)
qed

lemma process_finds_opener:
  assumes "\<not> hasStartedJson h" and "buffer h @ chunk = pre @ c0 # r1"
    and "\<forall>c \<in> set pre. \<not> is_opener c" and "is_opener c0"
  shows "process h chunk
           = (analyzeState (h\<lparr>buffer := [], hasStartedJson := True\<rparr>) (c0 # r1), c0 # r1)"
proof -
  have "search_opener (pre @ c0 # r1) = Some (length pre)"
    using assms(3,4) by (induction pre) (auto simp add: is_opener_def)
  with assms(1,2) show ?thesis
    by (simp add: process_def Let_def)
qed

lemma process_all_preamble:
  assumes "\<not> hasStartedJson h0" and "buffer h0 @ concat chunks = pre @ c0 # rest"
    and "\<forall>c \<in> set pre. \<not> is_opener c" and "length pre \<le> 500" and "is_opener c0"
    and "length (buffer h0) \<le> length pre"
  shows "\<exists>outs. process_all h0 chunks
                  = (analyzeState (h0\<lparr>buffer := [], hasStartedJson := True\<rparr>) (c0 # rest), outs)
               \<and> concat outs = c0 # rest"
  using assms(1,2,6)
proof (induction chunks arbitrary: h0)
  case Nil
  then have "length (buffer h0) = length (pre @ c0 # rest)" by simp
  with Nil.prems(3) show ?case by simp
next
  case (Cons chunk chunks)
  let ?buf = "buffer h0 @ chunk"
  from Cons.prems(2) have eq: "?buf @ concat chunks = pre @ c0 # rest" by simp
  then consider
      (found) r1 where "?buf = pre @ c0 # r1" "r1 @ concat chunks = rest"
    | (more) us where "?buf @ us = pre" "concat chunks = us @ c0 # rest"
  proof -
    from eq obtain us where "(?buf = pre @ us \<and> us @ concat chunks = c0 # rest)
        \<or> (?buf @ us = pre \<and> concat chunks = us @ c0 # rest)"
      unfolding append_eq_append_conv2 by blast
    then show ?thesis
    proof
      assume a: "?buf = pre @ us \<and> us @ concat chunks = c0 # rest"
      show ?thesis
      proof (cases us)
        case Nil
        with a have "?buf @ [] = pre" "concat chunks = [] @ c0 # rest" by simp_all
        then show ?thesis by (rule more)
      next
        case (Cons u r1)
        with a have "?buf = pre @ c0 # r1" "r1 @ concat chunks = rest" by simp_all
        then show ?thesis by (rule found)
      qed
    next
      assume "?buf @ us = pre \<and> concat chunks = us @ c0 # rest"
      then show ?thesis using more by blast
    qed
  qed
  then show ?case
  proof cases
    case found
    from process_finds_opener [OF Cons.prems(1) found(1) assms(3) assms(5)]
    have p: "process h0 chunk
               = (analyzeState (h0\<lparr>buffer := [], hasStartedJson := True\<rparr>) (c0 # r1), c0 # r1)" .
    let ?h1 = "analyzeState (h0\<lparr>buffer := [], hasStartedJson := True\<rparr>) (c0 # r1)"
    have "hasStartedJson ?h1" by simp
    from process_all_started_state [OF this, of chunks]
    have "process_all ?h1 chunks = (analyzeState ?h1 (concat chunks), chunks)" .
    moreover have "analyzeState ?h1 (concat chunks)
        = analyzeState (h0\<lparr>buffer := [], hasStartedJson := True\<rparr>) (c0 # rest)"
      using found(2) analyzeState_append [of _ "c0 # r1" "concat chunks"] by simp
    ultimately show ?thesis using p found(2) by simp
  next
    case more
    then have sub: "set ?buf \<subseteq> set pre" and len: "length ?buf \<le> length pre"
      by (metis Un_upper1 set_append, metis le_add1 length_append)
    from sub assms(3) have no: "\<forall>c \<in> set ?buf. \<not> is_opener c" by blast
    from len assms(4) have "length ?buf \<le> 500" by simp
    from process_buffering [OF Cons.prems(1) no this]
    have p: "process h0 chunk = (h0\<lparr>buffer := ?buf\<rparr>, [])" .
    let ?h1 = "h0\<lparr>buffer := ?buf\<rparr>"
    have "\<not> hasStartedJson ?h1" using Cons.prems(1) by simp
    moreover have "buffer ?h1 @ concat chunks = pre @ c0 # rest" using eq by simp
    moreover have "length (buffer ?h1) \<le> length pre" using len by simp
    ultimately obtain outs where
      "process_all ?h1 chunks
         = (analyzeState (?h1\<lparr>buffer := [], hasStartedJson := True\<rparr>) (c0 # rest), outs)"
      "concat outs = c0 # rest"
      using Cons.IH [of ?h1] by blast
    with p show ?thesis by simp
  qed
qed

section \<open>Idempotent healing\<close>

text \<open>
  Claim C7, as stated, fails.  Take the input of three characters \<^verbatim>\<open>[\<close>, \<^verbatim>\<open>"\<close> and a
  backslash (an array, a string, a pending escape) and no schema: \<open>process\<close> returns the
  input and \<open>finish\<close> returns \<^verbatim>\<open>"]\<close>.  Fed to a fresh healer, the concatenation is returned
  unchanged by \<open>process\<close>, but the quote is read as an escaped character, the string stays
  open, and \<open>finish\<close> returns \<^verbatim>\<open>"]\<close> again instead of the empty string.  It fails as well
  for a schema with a required key that is not read back as one string, because keys are
  written unescaped: with the key \<^verbatim>\<open>a"b\<close>, and with the key that is \<^verbatim>\<open>a\<close> followed by a
  backslash, the output for the input \<^verbatim>\<open>{\<close> leaves a string open in the second healer,
  whose \<open>finish\<close> injects the key again.  With a required key that has no string
  conversion \<open>finish\<close> raises and there is no output to feed back.
\<close>

theorem idempotence_counterexample:
  \<open>heal None text_pending_escape = (text_pending_escape, Inr ''"]'')
   \<and> strip_preamble (text_pending_escape @ ''"]'') = text_pending_escape @ ''"]''
   \<and> heal None (text_pending_escape @ ''"]'') = (text_pending_escape @ ''"]'', Inr ''"]'')
   \<and> heal (Some (schema_key ''a"b'')) ''{'' = (''{'', Inr ''"a"b":null}'')
   \<and> heal (Some (schema_key ''a"b'')) ''{"a"b":null}''
       = (''{"a"b":null}'', Inr ''","a"b":null}'')
   \<and> heal (Some (schema_key (''a'' @ [backslash]))) ''{''
       = (''{'', Inr (''"a'' @ [backslash] @ ''":null}''))
   \<and> heal (Some (schema_key (''a'' @ [backslash]))) (''{"a'' @ [backslash] @ ''":null}'')
       = (''{"a'' @ [backslash] @ ''":null}'', Inr (''","a'' @ [backslash] @ ''":null}''))
   \<and> heal (Some schema_required_object) ''{'' = (''{'', Inl TypeError)\<close>
  by (simp add: eval_defs text_pending_escape_def strip_preamble_def schema_key_def
      schema_required_object_def)

text \<open>
  Claim C7, amended.  For every input \<open>x\<close> and every schema in which each \<^verbatim>\<open>required\<close>
  the healer can read (that of a sub-schema of type \<^verbatim>\<open>'object'\<close>) is absent, falsy or an
  array of keys that the scanner reads back as one string (their string conversion holds
  no unescaped quote and does not end on a pending escape), or no schema: if the scan of
  \<open>x\<close> does not end on a pending escape inside a string, then \<open>finish\<close> returns a text
  \<open>F\<close>, and a fresh healer with the same schema, fed the output \<open>P @ F\<close> with its preamble
  removed, returns that text unchanged from \<open>process\<close> and the empty string from
  \<open>finish\<close>.
\<close>

theorem healing_idempotent:
  assumes "quotable_schema sch" and "process (new_StreamHealer sch) x = (h1, P)"
    and "\<not> (inString h1 \<and> isEscaped h1)"
  shows "\<exists>F h2. finish h1 = Inr F
           \<and> process (new_StreamHealer sch) (strip_preamble (P @ F)) = (h2, strip_preamble (P @ F))
           \<and> finish h2 = Inr []"
proof (cases "search_opener x")
  case (Some i)
  from search_opener_drop [OF Some] obtain c cs where d: "drop i x = c # cs" and c: "is_opener c"
    by blast
  from Some assms(2) d have h1: "h1 = analyzeState (started sch) P" and P: "P = c # cs"
    by (auto simp add: process_fresh)
  have i: "scan_inv h1" "hasStartedJson h1" "schema h1 = sch"
    by (simp_all add: h1 analyzeState_inv)
  with finish_closes [of h1] assms(1,3) obtain F where F: "finish h1 = Inr F"
    and cl: "closed_state (analyzeState h1 F)" by auto
  have so: "search_opener (P @ F) = Some 0" using c by (simp add: P is_opener_def)
  then have sp: "strip_preamble (P @ F) = P @ F" by (simp add: strip_preamble_def)
  from so have "process (new_StreamHealer sch) (P @ F) = (analyzeState h1 F, P @ F)"
    by (simp add: process_fresh h1)
  moreover have "finish (analyzeState h1 F) = Inr []"
    using cl i(2) by (simp add: finish_closed)
  ultimately show ?thesis using F sp by simp
next
  case None
  show ?thesis
  proof (cases "length x > MAX_PREAMBLE_BUFFER")
    case False
    with None assms(2) have h1: "h1 = (new_StreamHealer sch)\<lparr>buffer := x\<rparr>" and P: "P = []"
      by (auto simp add: process_fresh)
    then have F: "finish h1 = Inr x" by (simp add: finish_def new_StreamHealer_def)
    from None have "strip_preamble (P @ x) = []" by (simp add: strip_preamble_def P)
    with F fresh_empty [of sch] show ?thesis by simp
  next
    case True
    with None assms(2) have h1: "h1 = analyzeState (started sch) x" and P: "P = x"
      by (auto simp add: process_fresh)
  from None have no: "\<forall>c \<in> set x. \<not> is_opener c" by (simp add: search_opener_None)
    have "stack (started sch) = []" by (simp add: started_def new_StreamHealer_def)
    with scan_no_opener [OF no] have st: "stack h1 = []" by (simp add: h1)
    define F where "F = (if inString h1 then [dquote] else [])"
    have f: "finish h1 = Inr F"
      using st by (simp add: finish_def h1 F_def)
    have "\<forall>c \<in> set (P @ F). \<not> is_opener c"
      using no by (auto simp add: P F_def is_opener_def)
    then have "search_opener (P @ F) = None" by (simp only: search_opener_None)
    then have "strip_preamble (P @ F) = []" by (simp add: strip_preamble_def)
    with f fresh_empty [of sch] show ?thesis by simp
  qed
qed

theorem healing_idempotent_witness:
  \<open>quotable_schema (Some schema_ab_typed)
   \<and> \<not> (inString (fst (process (new_StreamHealer (Some schema_ab_typed)) ''Sure: {"a":1''))
        \<and> isEscaped (fst (process (new_StreamHealer (Some schema_ab_typed)) ''Sure: {"a":1'')))
   \<and> snd (process (new_StreamHealer (Some schema_ab_typed)) ''Sure: {"a":1'') = ''{"a":1''
   \<and> finish (fst (process (new_StreamHealer (Some schema_ab_typed)) ''Sure: {"a":1''))
       = Inr '',"b":null}''
   \<and> (\<exists>h2. process (new_StreamHealer (Some schema_ab_typed)) ''{"a":1,"b":null}''
               = (h2, ''{"a":1,"b":null}'')
            \<and> finish h2 = Inr [])\<close>
proof -
  let ?sch = "Some schema_ab_typed"
  let ?h1 = \<open>fst (process (new_StreamHealer ?sch) ''Sure: {"a":1'')\<close>
  let ?P = \<open>snd (process (new_StreamHealer ?sch) ''Sure: {"a":1'')\<close>
  have ps: "quotable_schema ?sch"
    by (simp add: quotable_schema_def schema_ab_typed_def quotable_def)
  have pr: \<open>process (new_StreamHealer ?sch) ''Sure: {"a":1'' = (?h1, ?P)\<close>
    by simp
  have ne: "\<not> (inString ?h1 \<and> isEscaped ?h1)"
    by (simp add: eval_defs)
  have P: \<open>?P = ''{"a":1''\<close>
    by (simp add: eval_defs)
  have F: \<open>finish ?h1 = Inr '',"b":null}''\<close>
    by (simp add: eval_defs schema_ab_typed_def)
  have sp: \<open>strip_preamble (''{"a":1'' @ '',"b":null}'') = ''{"a":1,"b":null}''\<close>
    by (simp add: strip_preamble_def)
  from healing_idempotent [OF ps pr ne] F P sp
  have \<open>\<exists>h2. process (new_StreamHealer ?sch) ''{"a":1,"b":null}'' = (h2, ''{"a":1,"b":null}'')
            \<and> finish h2 = Inr []\<close>
    by auto
  with ps ne P F show ?thesis by blast
qed

section \<open>The scanner follows the JSON reader\<close>

lemma frames_modify_top:
  "stk \<noteq> [] \<Longrightarrow> rev (modify_top f stk) = f (hd (rev stk)) # tl (rev stk)"
  by (cases stk rule: rev_cases) (simp_all add: modify_top_def)

lemma frames_butlast: "rev (butlast stk) = tl (rev stk)"
  by (cases stk rule: rev_cases) simp_all

lemma frames_last: "stk \<noteq> [] \<Longrightarrow> last stk = hd (rev stk)"
  by (simp add: hd_rev)

text \<open>The effect of one scanner step, on the frames read innermost first.\<close>

lemma step_in_string:
  assumes "inString h"
  shows "frames (analyzeChar h c) =
           (if \<not> isEscaped h \<and> c = dquote \<and> frames h \<noteq> [] \<and> isObject (hd (frames h))
               \<and> currentKey (hd (frames h)) = None
            then (hd (frames h))\<lparr>currentKey := Some (pendingKeyBuffer h),
                                keysSeen := insert (pendingKeyBuffer h) (keysSeen (hd (frames h)))\<rparr>
                 # tl (frames h)
            else frames h)"
    and "inString (analyzeChar h c) \<longleftrightarrow> isEscaped h \<or> c \<noteq> dquote"
    and "isEscaped (analyzeChar h c) \<longleftrightarrow> \<not> isEscaped h \<and> c = backslash"
  using assms
  by (auto simp add: analyzeChar_def awaiting_key_def frames_def frames_modify_top frames_last)

lemma step_outside:
  assumes "\<not> inString h"
  shows "frames (analyzeChar h c) =
           (if c = CHR ''{'' then new_frame (CHR ''}'') True # frames h
            else if c = CHR ''['' then new_frame (CHR '']'') False # frames h
            else if (c = CHR ''}'' \<or> c = CHR '']'') \<and> frames h \<noteq> [] \<and> char (hd (frames h)) = c
            then tl (frames h)
            else if c = CHR '','' \<and> frames h \<noteq> [] \<and> isObject (hd (frames h))
            then (hd (frames h))\<lparr>currentKey := None\<rparr> # tl (frames h)
            else frames h)"
    and "inString (analyzeChar h c) \<longleftrightarrow> c = dquote"
    and "isEscaped (analyzeChar h c) \<longleftrightarrow> isEscaped h"
  using assms
  by (auto simp add: analyzeChar_def frames_def frames_modify_top frames_last frames_butlast)

lemma ws_chars:
  assumes "is_ws c"
  shows "c \<noteq> CHR ''{''" "c \<noteq> CHR ''[''" "c \<noteq> CHR ''}''" "c \<noteq> CHR '']''" "c \<noteq> CHR '',''"
    "c \<noteq> dquote" "c \<noteq> backslash"
  using assms by (auto simp add: is_ws_def)

lemma digit_chars:
  assumes "is_digit c"
  shows "c \<noteq> CHR ''{''" "c \<noteq> CHR ''[''" "c \<noteq> CHR ''}''" "c \<noteq> CHR '']''" "c \<noteq> CHR '',''"
    "c \<noteq> dquote" "c \<noteq> backslash"
  using assms by (auto simp add: is_digit_def)

lemma hex_chars:
  assumes "is_hex c"
  shows "c \<noteq> dquote" "c \<noteq> backslash"
  using assms by (auto simp add: is_hex_def)

lemma closer_of_simps [simp]:
  "closer_of True = CHR ''}''" "closer_of False = CHR '']''"
  by (simp_all add: closer_of_def)

lemma sim_step_str:
  assumes "sim (MStr k p, stk) h" and "jstep (MStr k p, stk) c = Some st'"
  shows "sim st' (analyzeChar h c)"
proof -
  from assms(1) have i: "inString h" by (simp add: sim_def)
  note e = step_in_string [OF i, of c]
  show ?thesis
  proof (cases "frames h")
    case Nil
    with assms show ?thesis
      by (cases p) (auto simp add: sim_def e hex_chars split: if_splits)
  next
    case (Cons top rest)
    with assms show ?thesis
      by (cases p) (auto simp add: sim_def e hex_chars frame_ok_def lower_ok_def split: if_splits)
  qed
qed

lemma start_value_cases:
  assumes "start_value c stk = Some (m', stk')"
  shows "(c = CHR ''{'' \<and> m' = MKeyOrEnd \<and> stk' = True # stk)
       \<or> (c = CHR ''['' \<and> m' = MValueOrEnd \<and> stk' = False # stk)
       \<or> (c = dquote \<and> m' = MStr False SPlain \<and> stk' = stk)
       \<or> (c \<noteq> CHR ''{'' \<and> c \<noteq> CHR ''['' \<and> c \<noteq> CHR ''}'' \<and> c \<noteq> CHR '']'' \<and> c \<noteq> CHR '',''
            \<and> c \<noteq> dquote \<and> stk' = stk \<and> ((\<exists>n. m' = MNum n) \<or> (\<exists>r. m' = MLit r)))"
  using assms by (auto simp add: digit_chars split: if_splits)

lemma after_value_cases:
  assumes "after_value c stk = Some (m', stk')"
  shows "(is_ws c \<and> m' = MAfter \<and> stk' = stk)
       \<or> (c = CHR '','' \<and> stk' = stk \<and> (\<exists>r. stk = True # r \<and> m' = MKey \<or> stk = False # r \<and> m' = MValue))
       \<or> (c = CHR ''}'' \<and> m' = MAfter \<and> stk = True # stk')
       \<or> (c = CHR '']'' \<and> m' = MAfter \<and> stk = False # stk')"
  using assms by (auto split: if_splits list.splits bool.splits)

lemma sim_push:
  assumes "sim (m, stk) h" and "m = MValue \<or> m = MValueOrEnd"
  shows "sim (MKeyOrEnd, True # stk) (analyzeChar h (CHR ''{''))"
    and "sim (MValueOrEnd, False # stk) (analyzeChar h (CHR ''[''))"
proof -
  from assms have n: "\<not> inString h" by (auto simp add: sim_def)
  show "sim (MKeyOrEnd, True # stk) (analyzeChar h (CHR ''{''))"
    using assms
    by (cases "frames h")
       (auto simp add: sim_def step_outside [OF n] new_frame_def frame_ok_def lower_ok_def)
  show "sim (MValueOrEnd, False # stk) (analyzeChar h (CHR ''[''))"
    using assms
    by (cases "frames h")
       (auto simp add: sim_def step_outside [OF n] new_frame_def frame_ok_def lower_ok_def)
qed

lemma sim_pop:
  assumes "sim (m, b # stk) h" and "\<not> in_str m"
  shows "sim (MAfter, stk) (analyzeChar h (closer_of b))"
proof -
  from assms have n: "\<not> inString h" by (auto simp add: sim_def)
  from assms(1) obtain top rest where f: "frames h = top # rest"
    by (cases "frames h") (auto simp add: sim_def)
  with assms(1) have t: "isObject top = b" "char top = closer_of b" "map isObject rest = stk"
    "list_all frame_ok rest" "list_all lower_ok rest" "\<not> isEscaped h"
    using assms(2) by (cases m; auto simp add: sim_def frame_ok_def)+
  have c: "closer_of b = CHR ''}'' \<or> closer_of b = CHR '']''"
    "closer_of b \<noteq> CHR ''{''" "closer_of b \<noteq> CHR ''[''" "closer_of b \<noteq> dquote"
    by (cases b; simp)+
  from c(1) have fr: "frames (analyzeChar h (closer_of b)) = rest"
    by (auto simp add: step_outside (1) [OF n] f t c)
  have "top_ok MAfter rest"
    using t(5) by (cases rest) (simp_all add: lower_ok_def)
  moreover have "list_all lower_ok (tl rest)"
    using t(5) by (cases rest) simp_all
  ultimately show ?thesis
    using t by (simp add: sim_def fr step_outside (2,3) [OF n] c)
qed

lemma sim_quote:
  assumes "sim (m, stk) h" and "\<not> in_str m"
    and "k \<longrightarrow> m = MKeyOrEnd \<or> m = MKey" and "\<not> k \<longrightarrow> m = MValue \<or> m = MValueOrEnd"
  shows "sim (MStr k SPlain, stk) (analyzeChar h dquote)"
proof -
  from assms have n: "\<not> inString h" by (auto simp add: sim_def)
  show ?thesis
    using assms
    by (cases "frames h"; cases k)
       (auto simp add: sim_def step_outside [OF n] frame_ok_def lower_ok_def)
qed

lemma sim_comma:
  assumes "sim (m, b # stk) h" and "m = MAfter \<or> (\<exists>n. m = MNum n)"
  shows "sim (if b then MKey else MValue, b # stk) (analyzeChar h (CHR '',''))"
proof -
  from assms have n: "\<not> inString h" by (auto simp add: sim_def)
  from assms(1) obtain top rest where f: "frames h = top # rest"
    by (cases "frames h") (auto simp add: sim_def)
  show ?thesis
    using assms f
    by (cases b) (auto simp add: sim_def step_outside [OF n] frame_ok_def lower_ok_def)
qed

lemma sim_inert:
  assumes "sim (m, stk) h" and "\<not> in_str m" and "inert c" and "\<not> in_str m'" and "lit_ok m'"
    and "top_ok m (frames h) \<Longrightarrow> top_ok m' (frames h)"
  shows "sim (m', stk) (analyzeChar h c)"
proof -
  from assms have n: "\<not> inString h" by (auto simp add: sim_def)
  from assms(3) have fr: "frames (analyzeChar h c) = frames h"
    by (simp add: step_outside (1) [OF n] inert_def)
  from assms(1,2,4) have "isEscaped (analyzeChar h c) \<longleftrightarrow> in_esc m'"
    by (cases m; cases m') (auto simp add: sim_def step_outside (3) [OF n])
  with assms show ?thesis
    by (simp add: sim_def fr step_outside (2) [OF n] inert_def)
qed

lemma ws_inert: "is_ws c \<Longrightarrow> inert c"
  by (auto simp add: is_ws_def inert_def)

lemma top_ok_value_like:
  assumes "top_ok m fs" and "m = MValue \<or> m = MValueOrEnd \<or> m = MColon \<or> m = MAfter \<or> (\<exists>n. m = MNum n)
     \<or> (\<exists>r. m = MLit r)"
    and "m' = MValue \<or> m' = MAfter \<or> (\<exists>n. m' = MNum n) \<or> (\<exists>r. m' = MLit r)"
  shows "top_ok m' fs"
  using assms by (cases fs) auto

lemma digit_inert: "is_digit c \<Longrightarrow> inert c"
  by (simp add: inert_def digit_chars)

lemma num_step_chars:
  "num_step n c = Some n' \<Longrightarrow>
     is_digit c \<or> c = CHR ''0'' \<or> c = CHR ''.'' \<or> c = CHR ''e'' \<or> c = CHR ''E''
     \<or> c = CHR ''+'' \<or> c = CHR ''-''"
  by (cases n) (auto split: if_splits)

lemma num_step_inert:
  assumes "num_step n c = Some n'"
  shows "inert c"
  using num_step_chars [OF assms]
proof (elim disjE)
  assume "is_digit c"
  then show ?thesis by (rule digit_inert)
qed (simp_all add: inert_def)

lemma sim_step:
  assumes "sim st h" and "jstep st c = Some st'"
  shows "sim st' (analyzeChar h c)"
proof -
  obtain m stk where st: "st = (m, stk)" by (cases st)
  obtain m' stk' where st': "st' = (m', stk')" by (cases st')
  note s = assms(1) [unfolded st]
  note j = assms(2) [unfolded st st']
  have after: "sim (m', stk') (analyzeChar h c)"
    if a: "after_value c stk = Some (m', stk')" and m: "m = MAfter \<or> (\<exists>n. m = MNum n)"
  proof -
    from m have ns: "\<not> in_str m" by auto
    from after_value_cases [OF a] consider
        (ws) "is_ws c" "m' = MAfter" "stk' = stk"
      | (obj) r where "c = CHR '',''" "stk' = stk" "stk = True # r" "m' = MKey"
      | (arr) r where "c = CHR '',''" "stk' = stk" "stk = False # r" "m' = MValue"
      | (cobj) "c = CHR ''}''" "m' = MAfter" "stk = True # stk'"
      | (carr) "c = CHR '']''" "m' = MAfter" "stk = False # stk'"
      by blast
    then show ?thesis
    proof cases
      case ws
      with sim_inert [OF s ns ws_inert, of c MAfter] top_ok_value_like [of m "frames h" MAfter] m
      show ?thesis by auto
    next
      case obj
      with sim_comma [of m True r h] s m show ?thesis by simp
    next
      case arr
      with sim_comma [of m False r h] s m show ?thesis by simp
    next
      case cobj
      with sim_pop [of m True stk' h] s ns show ?thesis by simp
    next
      case carr
      with sim_pop [of m False stk' h] s ns show ?thesis by simp
    qed
  qed
  have start: "sim (m', stk') (analyzeChar h c)"
    if a: "start_value c stk = Some (m', stk')" and m: "m = MValue \<or> m = MValueOrEnd"
  proof -
    from m have ns: "\<not> in_str m" by auto
    from start_value_cases [OF a] consider
        (obj) "c = CHR ''{''" "m' = MKeyOrEnd" "stk' = True # stk"
      | (arr) "c = CHR ''[''" "m' = MValueOrEnd" "stk' = False # stk"
      | (str) "c = dquote" "m' = MStr False SPlain" "stk' = stk"
      | (num) n where "inert c" "stk' = stk" "m' = MNum n"
      | (lit) r where "inert c" "stk' = stk" "m' = MLit r"
      unfolding inert_def by blast
    then show ?thesis
    proof cases
      case obj
      with sim_push(1) [OF s m] show ?thesis by simp
    next
      case arr
      with sim_push(2) [OF s m] show ?thesis by simp
    next
      case str
      with sim_quote [OF s ns, of False] m show ?thesis by simp
    next
      case num
      with sim_inert [OF s ns, of c "MNum n"] top_ok_value_like [of m "frames h" "MNum n"] m
      show ?thesis by auto
    next
      case lit
      moreover from a lit have "lit_ok (MLit r)"
        by (auto simp add: inert_def split: if_splits)
      ultimately show ?thesis
        using sim_inert [OF s ns, of c "MLit r"] top_ok_value_like [of m "frames h" "MLit r"] m
        by auto
    qed
  qed
  have ?thesis if "in_str m"
  proof -
    from that obtain k p where "m = MStr k p" by (cases m) simp_all
    with sim_step_str [of k p stk h c st'] assms st show ?thesis by simp
  qed
  moreover have "sim (m', stk') (analyzeChar h c)" if ns: "\<not> in_str m"
  proof (cases m)
    case MValue
    show ?thesis
    proof (cases "is_ws c")
      case True
      with j MValue sim_inert [OF s ns ws_inert, of c MValue] show ?thesis by simp
    next
      case False
      with j MValue start show ?thesis by simp
    qed
  next
    case MValueOrEnd
    show ?thesis
    proof (cases "is_ws c")
      case True
      with j MValueOrEnd sim_inert [OF s ns ws_inert, of c MValueOrEnd] show ?thesis by simp
    next
      case ws: False
      show ?thesis
      proof (cases "c = CHR '']''")
        case True
        with j MValueOrEnd ws obtain r where "stk = False # r" "m' = MAfter" "stk' = r"
          by (auto split: list.splits bool.splits)
        with sim_pop [of m False r h] s ns True show ?thesis by simp
      next
        case False
        with j MValueOrEnd ws start show ?thesis by simp
      qed
    qed
  next
    case MKeyOrEnd
    show ?thesis
    proof (cases "is_ws c")
      case True
      with j MKeyOrEnd sim_inert [OF s ns ws_inert, of c MKeyOrEnd] show ?thesis by simp
    next
      case ws: False
      show ?thesis
      proof (cases "c = CHR ''}''")
        case True
        with j MKeyOrEnd ws obtain r where "stk = True # r" "m' = MAfter" "stk' = r"
          by (auto split: list.splits bool.splits)
        with sim_pop [of m True r h] s ns True show ?thesis by simp
      next
        case False
        with j MKeyOrEnd ws sim_quote [OF s ns, of True] show ?thesis
          by (auto split: if_splits)
      qed
    qed
  next
    case MKey
    show ?thesis
    proof (cases "is_ws c")
      case True
      with j MKey sim_inert [OF s ns ws_inert, of c MKey] show ?thesis by simp
    next
      case False
      with j MKey sim_quote [OF s ns, of True] show ?thesis
        by (auto split: if_splits)
    qed
  next
    case MColon
    show ?thesis
    proof (cases "is_ws c")
      case True
      with j MColon sim_inert [OF s ns ws_inert, of c MColon] show ?thesis by simp
    next
      case False
      with j MColon have c: "c = CHR '':''" "m' = MValue" "stk' = stk"
        by (auto split: if_splits)
      then have "inert c" by (simp add: inert_def)
      from sim_inert [OF s ns this, of MValue] top_ok_value_like [of m "frames h" MValue] MColon c
      show ?thesis by simp
    qed
  next
    case MAfter
    with j after show ?thesis by simp
  next
    case (MStr k p)
    with ns show ?thesis by simp
  next
    case (MNum n)
    show ?thesis
    proof (cases "num_step n c")
      case None
      with j MNum after show ?thesis by (auto split: if_splits)
    next
      case (Some n')
      with j MNum have "m' = MNum n'" "stk' = stk" by simp_all
      with sim_inert [OF s ns num_step_inert [OF Some], of "MNum n'"]
        top_ok_value_like [of m "frames h" "MNum n'"] MNum
      show ?thesis by simp
    qed
  next
    case (MLit r)
    with j obtain c' r' where r: "r = c' # r'" "c = c'" "stk' = stk"
      "m' = (if r' = [] then MAfter else MLit r')"
      by (auto split: list.splits if_splits)
    from s MLit r have i: "inert c" "lit_ok m'" by (auto simp add: sim_def)
    have "\<not> in_str m'" using r by simp
    from sim_inert [OF s ns i(1) this i(2)] top_ok_value_like [of m "frames h" m'] MLit r
    show ?thesis by auto
  qed
  ultimately show ?thesis by (auto simp add: st')
qed

lemma sim_run:
  assumes "sim st h" and "jrun st s = Some st'"
  shows "sim st' (analyzeState h s)"
  using assms
proof (induction s arbitrary: st h)
  case Nil
  then show ?case by simp
next
  case (Cons c cs)
  then obtain st1 where 1: "jstep st c = Some st1" and 2: "jrun st1 cs = Some st'"
    by (auto split: option.splits)
  from Cons.IH [OF sim_step [OF Cons.prems(1) 1] 2] show ?case
    by (simp add: analyzeState_Cons)
qed

lemma jrun_append:
  "jrun st (s @ t) = (case jrun st s of None \<Rightarrow> None | Some st' \<Rightarrow> jrun st' t)"
  by (induction s arbitrary: st) (simp_all split: option.splits)

lemma jrun_str_body:
  "str_body p k \<Longrightarrow> jrun (MStr b p, stk) k = Some (MStr b SPlain, stk)"
  by (induction k arbitrary: p) (auto split: option.splits)

lemma jrun_entry:
  assumes "str_body SPlain k" and "m = MKey \<or> m = MKeyOrEnd"
  shows "jrun (m, True # r) (entry k) = Some (MAfter, True # r)"
proof -
  have 1: "jrun (m, True # r) [dquote] = Some (MStr True SPlain, True # r)"
    using assms(2) by (auto simp add: is_ws_def)
  have 2: "jrun (MStr True SPlain, True # r) [dquote] = Some (MColon, True # r)"
    by simp
  have 3: "jrun (MColon, True # r) '':null'' = Some (MAfter, True # r)"
    by (simp add: is_ws_def is_digit_def)
  show ?thesis
    unfolding entry_def
    by (simp only: jrun_append 1 jrun_str_body [OF assms(1)] 2 3 option.case)
qed

lemma after_like_comma:
  assumes "m = MAfter \<or> (\<exists>n. m = MNum n \<and> num_final n)"
  shows "jstep (m, True # r) (CHR '','') = Some (MKey, True # r)"
proof -
  have "num_step n (CHR '','') = None" for n
    by (cases n) (simp_all add: is_digit_def)
  with assms show ?thesis by (auto simp add: is_ws_def)
qed

lemma jrun_comma_entries:
  assumes "\<forall>k \<in> set ks. str_body SPlain k" and "m = MAfter \<or> (\<exists>n. m = MNum n \<and> num_final n)"
    and "ks \<noteq> []"
  shows "jrun (m, True # r) (concat (map (\<lambda>k. '','' @ entry k) ks)) = Some (MAfter, True # r)"
  using assms
proof (induction ks arbitrary: m)
  case Nil
  then show ?case by simp
next
  case (Cons k ks)
  from after_like_comma [OF Cons.prems(2), of r] jrun_entry [of k MKey r] Cons.prems(1)
  have 1: "jrun (m, True # r) ('','' @ entry k) = Some (MAfter, True # r)"
    by simp
  show ?case
  proof (cases "ks = []")
    case True
    with 1 show ?thesis by simp
  next
    case False
    with Cons.IH [of MAfter] Cons.prems(1)
    have "jrun (MAfter, True # r) (concat (map (\<lambda>k. '','' @ entry k) ks)) = Some (MAfter, True # r)"
      by simp
    with 1 show ?thesis
      by (simp only: list.map concat.simps jrun_append option.case)
  qed
qed

lemma join_commas:
  "join '','' (map entry (k # ks)) = entry k @ concat (map (\<lambda>k. '','' @ entry k) ks)"
  by (induction ks arbitrary: k) simp_all

lemma after_like_cases: "after_like m \<Longrightarrow> m = MAfter \<or> (\<exists>n. m = MNum n \<and> num_final n)"
  by (cases m) simp_all

lemma after_like_final: "after_like m \<Longrightarrow> jfinal m"
  by (cases m) simp_all

lemma jstep_closer:
  assumes "resumable_top m (f # fs)"
  shows "jstep (m, isObject f # bs) (closer_of (isObject f)) = Some (MAfter, bs)"
proof -
  have n: "num_step n (CHR ''}'') = None" "num_step n (CHR '']'') = None" for n
    by (cases n; simp add: is_digit_def)+
  have w: "\<not> is_ws (CHR ''}'')" "\<not> is_ws (CHR '']'')"
    by (simp_all add: is_ws_def)
  from assms consider
      (a) "after_like m"
    | (k) "m = MKeyOrEnd" "isObject f"
    | (v) "m = MValueOrEnd" "\<not> isObject f"
    by auto
  then show ?thesis
  proof cases
    case a
    from after_like_cases [OF a] show ?thesis
      by (cases "isObject f") (auto simp add: n w)
  next
    case k
    then show ?thesis by (simp add: w)
  next
    case v
    then show ?thesis by (simp add: w)
  qed
qed

lemma jrun_injection:
  assumes "resumable_top m (f # fs)" and "isObject f" and "ks \<noteq> []"
    and "\<forall>k \<in> set ks. str_body SPlain k"
  shows "jrun (m, True # bs) ((if keysSeen f \<noteq> {} then '','' else []) @ join '','' (map entry ks))
           = Some (MAfter, True # bs)"
proof -
  from assms(3) obtain k ks' where c: "ks = k # ks'" by (cases ks) simp_all
  have inj: "join '','' (map entry ks) = entry k @ concat (map (\<lambda>k. '','' @ entry k) ks')"
    using join_commas [of k ks'] by (simp add: c)
  show ?thesis
  proof (cases "keysSeen f = {}")
    case True
    with assms(1,2) have m: "m = MKeyOrEnd" by auto
    from jrun_entry [of k m bs] assms(4) c m
    have 1: "jrun (m, True # bs) (entry k) = Some (MAfter, True # bs)" by simp
    have 2: "jrun (MAfter, True # bs) (concat (map (\<lambda>k. '','' @ entry k) ks')) = Some (MAfter, True # bs)"
    proof (cases "ks' = []")
      case True
      then show ?thesis by simp
    next
      case False
      with jrun_comma_entries [of ks' MAfter bs] assms(4) c show ?thesis by simp
    qed
    from True 1 2 show ?thesis
      by (simp add: inj jrun_append)
  next
    case False
    with assms(1,2) have "after_like m" by auto
    from after_like_cases [OF this] jrun_comma_entries [of ks m bs] assms(3,4)
    have "jrun (m, True # bs) (concat (map (\<lambda>k. '','' @ entry k) ks)) = Some (MAfter, True # bs)"
      by simp
    moreover have "'','' @ join '','' (map entry ks) = concat (map (\<lambda>k. '','' @ entry k) ks)"
      using inj by (simp add: c)
    ultimately show ?thesis using False by simp
  qed
qed

lemma json_keys_schema_cases:
  "json_keys_schema sch \<Longrightarrow>
     sch = None \<or> (\<exists>s. sch = Some s \<and> required_all (keys_all (str_body SPlain)) s)"
  by (cases sch) (simp_all add: json_keys_schema_def)

lemma rev_take_Suc: "n < length stk \<Longrightarrow> rev (take (Suc n) stk) = stk ! n # rev (take n stk)"
  by (simp add: take_Suc_conv_app_nth)

lemma lower_after:
  "list_all lower_ok fs \<Longrightarrow> resumable_top MAfter fs \<and> list_all lower_ok (tl fs)"
  by (cases fs) (simp_all add: lower_ok_def)

lemma finish_loop_accepts:
  assumes "json_keys_schema sch" and "list_all frame_ok stk" and "n \<le> length stk"
  shows "\<exists>F. (\<forall>closure. finish_loop sch stk n closure = Inr (closure @ F))
            \<and> (\<forall>m. resumable_top m (rev (take n stk)) \<and> list_all lower_ok (tl (rev (take n stk)))
                  \<longrightarrow> (\<exists>m'. jrun (m, map isObject (rev (take n stk))) F = Some (m', []) \<and> jfinal m'))"
  using assms(3)
proof (induction n)
  case 0
  have "\<forall>closure. finish_loop sch stk 0 closure = Inr (closure @ [])" by simp
  moreover have "\<forall>m. resumable_top m (rev (take 0 stk)) \<and> list_all lower_ok (tl (rev (take 0 stk)))
        \<longrightarrow> (\<exists>m'. jrun (m, map isObject (rev (take 0 stk))) [] = Some (m', []) \<and> jfinal m')"
    by (simp add: after_like_final)
  ultimately show ?case by blast
next
  case (Suc n)
  then have n: "n < length stk" by simp
  with Suc obtain F where F1: "\<And>closure. finish_loop sch stk n closure = Inr (closure @ F)"
    and F2: "\<And>m. resumable_top m (rev (take n stk)) \<Longrightarrow> list_all lower_ok (tl (rev (take n stk)))
               \<Longrightarrow> \<exists>m'. jrun (m, map isObject (rev (take n stk))) F = Some (m', []) \<and> jfinal m'"
    by auto
  let ?f = "stk ! n"
  let ?fs = "rev (take n stk)"
  let ?bs = "map isObject ?fs"
  from finish_loop_step [OF json_keys_schema_cases [OF assms(1)], of stk n] obtain ks
    where ks: "\<forall>k \<in> set ks. str_body SPlain k" and ob: "ks \<noteq> [] \<longrightarrow> isObject ?f"
      and st: "\<And>closure. finish_loop sch stk (Suc n) closure
                 = finish_loop sch stk n
                     (closure
                      @ (if ks = [] then []
                         else (if keysSeen ?f \<noteq> {} then '','' else [])
                              @ join '','' (map entry ks))
                      @ [char ?f])"
    by blast
  define inj where "inj = (if ks = [] then []
                           else (if keysSeen ?f \<noteq> {} then '','' else [])
                                @ join '','' (map entry ks))"
  have step: "finish_loop sch stk (Suc n) closure = finish_loop sch stk n (closure @ inj @ [char ?f])"
    for closure
    unfolding inj_def by (rule st)
  from assms(2) n have c: "char ?f = closer_of (isObject ?f)"
    by (simp add: list_all_length frame_ok_def)
  have 1: "\<forall>closure. finish_loop sch stk (Suc n) closure = Inr (closure @ (inj @ [char ?f] @ F))"
    by (simp only: step F1 append_assoc simp_thms)
  have 2: "\<exists>m'. jrun (m, map isObject (rev (take (Suc n) stk))) (inj @ [char ?f] @ F) = Some (m', [])
                \<and> jfinal m'"
    if r: "resumable_top m (rev (take (Suc n) stk))"
      and l: "list_all lower_ok (tl (rev (take (Suc n) stk)))" for m
  proof -
    from r n have rt: "resumable_top m (?f # ?fs)" by (simp add: rev_take_Suc)
    from l n have lo: "list_all lower_ok ?fs" by (simp add: rev_take_Suc)
    have bs: "map isObject (rev (take (Suc n) stk)) = isObject ?f # ?bs"
      using n by (simp add: rev_take_Suc)
    have a: "\<exists>m1. jrun (m, isObject ?f # ?bs) inj = Some (m1, isObject ?f # ?bs)
                  \<and> jstep (m1, isObject ?f # ?bs) (closer_of (isObject ?f)) = Some (MAfter, ?bs)"
    proof (cases "ks = []")
      case False
      with ob have o: "isObject ?f" by simp
      from jrun_injection [OF rt o False ks, of ?bs] False o
      have "jrun (m, isObject ?f # ?bs) inj = Some (MAfter, isObject ?f # ?bs)"
        by (simp add: inj_def)
      moreover have "jstep (MAfter, isObject ?f # ?bs) (closer_of (isObject ?f)) = Some (MAfter, ?bs)"
        by (cases "isObject ?f") (simp_all add: is_ws_def)
      ultimately show ?thesis by blast
    next
      case True
      then have "inj = []" unfolding inj_def by simp
      with jstep_closer [OF rt, of ?bs] show ?thesis by simp
    qed
    then obtain m1 where m1: "jrun (m, isObject ?f # ?bs) inj = Some (m1, isObject ?f # ?bs)"
      "jstep (m1, isObject ?f # ?bs) (closer_of (isObject ?f)) = Some (MAfter, ?bs)" by blast
    from m1(2) c
    have cl: "jrun (m1, isObject ?f # ?bs) [char ?f] = Some (MAfter, ?bs)" by simp
    from lower_after [OF lo] obtain m' where "jrun (MAfter, ?bs) F = Some (m', [])" "jfinal m'"
      using F2 [of MAfter] by blast
    with m1(1) cl show ?thesis
      by (simp only: bs jrun_append option.case) blast
  qed
  from 1 2 show ?case by blast
qed

lemma top_ok_resumable:
  assumes "top_ok m fs" and "resumable m" and "\<not> in_str m"
  shows "resumable_top m fs"
  using assms by (cases fs; cases m) auto

lemma finish_accepts:
  assumes "sim (m, stk) h" and "resumable m" and "hasStartedJson h" and "json_keys_schema (schema h)"
  shows "\<exists>F m'. finish h = Inr F \<and> jrun (m, stk) F = Some (m', []) \<and> jfinal m'"
proof (cases "in_str m")
  case False
  with assms(1) have n: "\<not> inString h" by (simp add: sim_def)
  from assms(1) have ok: "list_all frame_ok (stack h)"
    by (simp add: sim_def frames_def)
  from finish_loop_accepts [OF assms(4) ok le_refl] obtain F
    where F1: "\<And>closure. finish_loop (schema h) (stack h) (length (stack h)) closure = Inr (closure @ F)"
    and F2: "\<And>m. resumable_top m (frames h) \<Longrightarrow> list_all lower_ok (tl (frames h))
               \<Longrightarrow> \<exists>m'. jrun (m, map isObject (frames h)) F = Some (m', []) \<and> jfinal m'"
    by (auto simp add: frames_def)
  from n assms(3) F1 [of "[]"] have f: "finish h = Inr F" by (simp add: finish_def)
  from assms(1) have "top_ok m (frames h)" "list_all lower_ok (tl (frames h))"
    "map isObject (frames h) = stk"
    by (simp_all add: sim_def)
  with F2 [of m] top_ok_resumable [OF _ assms(2) False] f show ?thesis by auto
next
  case True
  with assms(2) have m: "m = MStr False SPlain" by (cases m) auto
  with assms(1) have i: "inString h" by (simp add: sim_def)
  define stk' where "stk' = (if stack h \<noteq> [] \<and> isObject (last (stack h))
      then modify_top (\<lambda>top. top\<lparr>keysSeen := insert (pendingKeyBuffer h) (keysSeen top)\<rparr>) (stack h)
      else stack h)"
  define fs' where "fs' = rev stk'"
  have fs': "fs' = (case frames h of [] \<Rightarrow> []
      | f # r \<Rightarrow> (if isObject f then f\<lparr>keysSeen := insert (pendingKeyBuffer h) (keysSeen f)\<rparr> else f) # r)"
    unfolding fs'_def stk'_def frames_def
    by (cases "stack h" rule: rev_cases) (simp_all add: modify_top_def)
  from assms(1) have s: "list_all frame_ok (frames h)" "list_all lower_ok (tl (frames h))"
    "map isObject (frames h) = stk"
    by (simp_all add: sim_def)
  have p: "list_all frame_ok fs' \<and> list_all lower_ok (tl fs') \<and> map isObject fs' = stk
    \<and> resumable_top MAfter fs'"
  proof (cases "frames h")
    case Nil
    with s show ?thesis by (simp add: fs')
  next
    case (Cons f r)
    with s show ?thesis by (auto simp add: fs' frame_ok_def)
  qed
  from p have ok: "list_all frame_ok stk'"
    by (simp add: fs'_def list_all_iff)
  from finish_loop_accepts [OF assms(4) ok le_refl] obtain F
    where F1: "\<And>closure. finish_loop (schema h) stk' (length stk') closure = Inr (closure @ F)"
    and F2: "\<And>m. resumable_top m fs' \<Longrightarrow> list_all lower_ok (tl fs')
               \<Longrightarrow> \<exists>m'. jrun (m, map isObject fs') F = Some (m', []) \<and> jfinal m'"
    by (auto simp add: fs'_def)
  from i assms(3) have "finish h = finish_loop (schema h) stk' (length stk') [dquote]"
    unfolding stk'_def by (simp add: finish_def Let_def)
  with F1 [of "[dquote]"] have f: "finish h = Inr ([dquote] @ F)" by simp
  from F2 [of MAfter] p obtain m' where "jrun (MAfter, stk) F = Some (m', [])" "jfinal m'"
    by auto
  moreover have "jrun (m, stk) [dquote] = Some (MAfter, stk)"
    by (simp add: m)
  ultimately have "jrun (m, stk) ([dquote] @ F) = Some (m', [])"
    by (simp only: jrun_append option.case)
  with f \<open>jfinal m'\<close> show ?thesis by blast
qed

lemma sim_started: "sim (MValue, []) (started sch)"
  by (simp add: sim_def frames_def started_def new_StreamHealer_def)

lemma json_prefix_runs:
  assumes "is_json (p @ q)"
  shows "\<exists>m stk. jrun (MValue, []) p = Some (m, stk)"
proof (cases "jrun (MValue, []) p")
  case None
  with assms show ?thesis by (simp add: is_json_def jrun_append)
next
  case (Some st)
  then show ?thesis by (cases st) simp
qed

section \<open>Well-formed output\<close>

lemma analyzeChar_inert: "\<not> inString h \<Longrightarrow> inert c \<Longrightarrow> analyzeChar h c = h"
  by (simp add: analyzeChar_def inert_def)

lemma analyzeState_replicate:
  "\<not> inString h \<Longrightarrow> inert c \<Longrightarrow> analyzeState h (replicate n c) = h"
  by (induction n) (simp_all add: analyzeState_Cons analyzeChar_inert)

lemma search_opener_replicate:
  "\<not> is_opener c \<Longrightarrow> search_opener (replicate n c @ s) = map_option (\<lambda>i. n + i) (search_opener s)"
  by (induction n; cases "search_opener s") (simp_all add: is_opener_def)

lemma long_preamble_scan:
  "analyzeState (started sch) long_preamble = (started sch)\<lparr>inString := True\<rparr>"
  by (simp add: long_preamble_def analyzeState_replicate inert_def started_def
      new_StreamHealer_def analyzeState_Cons analyzeChar_def)

lemma long_preamble_process:
  "process_all (new_StreamHealer None) [long_preamble, ''[1'']
     = ((started None)\<lparr>inString := True\<rparr>, [long_preamble, ''[1''])"
proof -
  have so: "search_opener long_preamble = None"
    by (simp add: long_preamble_def search_opener_replicate is_opener_def)
  have len: "length long_preamble = 501" by (simp add: long_preamble_def)
  have p1: "process (new_StreamHealer None) long_preamble
      = ((started None)\<lparr>inString := True\<rparr>, long_preamble)"
    using so len long_preamble_scan [of None]
    by (simp add: process_def Let_def MAX_PREAMBLE_BUFFER_def new_StreamHealer_def started_def)
  have p2: "process ((started None)\<lparr>inString := True\<rparr>) ''[1''
      = ((started None)\<lparr>inString := True\<rparr>, ''[1'')"
    by (simp add: process_def started_def new_StreamHealer_def analyzeState_def analyzeChar_def
        awaiting_key_def)
  show ?thesis by (simp add: p1 p2)
qed

text \<open>
  Claim C1, as stated, fails, in four ways.

  \<^item> A prefix cut where closing does not complete it: \<^verbatim>\<open>{"a":\<close> is a prefix of the JSON
    document \<^verbatim>\<open>{"a":1}\<close>; with no preamble, no schema and one chunk, \<open>process\<close> returns
    it, \<open>finish\<close> returns \<^verbatim>\<open>}\<close>, and the concatenation \<^verbatim>\<open>{"a":}\<close> is not a JSON document.

  \<^item> A document that does not start with an opener: \<^verbatim>\<open>"a\<close> is a prefix of the JSON document
    \<^verbatim>\<open>"a"\<close>; the healer buffers it as preamble and \<open>finish\<close> returns it as it is.

  \<^item> A preamble of more than 500 characters that arrives before the document: it is
    flushed to the caller and scanned, the quote at its end opens a string for the scanner,
    the prefix \<^verbatim>\<open>[1\<close> of the document \<^verbatim>\<open>[1]\<close> is read inside that string, and \<open>finish\<close>
    returns a quote.

  \<^item> A schema with a required key that is not the content of a JSON string, because keys
    are written unescaped: \<^verbatim>\<open>{\<close> is a prefix of the JSON document \<^verbatim>\<open>{}\<close>, and with the
    required key \<^verbatim>\<open>a"b\<close> it is completed to \<^verbatim>\<open>{"a"b":null}\<close>; with a required key that
    has no string conversion, \<open>finish\<close> raises.
\<close>

theorem well_formedness_counterexample:
  \<open>(is_json (text_after_colon @ ''1}'')
    \<and> heal None text_after_colon = (text_after_colon, Inr ''}'')
    \<and> \<not> is_json (text_after_colon @ ''}''))
   \<and> (is_json ''"a"'' \<and> resumable_cut ''"a''
    \<and> heal None ''"a'' = ([], Inr ''"a'') \<and> \<not> is_json ''"a'')
   \<and> (search_opener long_preamble = None \<and> length long_preamble = 501
    \<and> is_json ''[1]'' \<and> resumable_cut ''[1''
    \<and> snd (process_all (new_StreamHealer None) [long_preamble, ''[1''])
        = [long_preamble, ''[1'']
    \<and> finish (fst (process_all (new_StreamHealer None) [long_preamble, ''[1''])) = Inr ''"''
    \<and> strip_preamble (long_preamble @ ''[1'' @ ''"'') = ''[1"''
    \<and> \<not> is_json ''[1"'')
   \<and> (is_json ''{}'' \<and> resumable_cut ''{''
    \<and> heal (Some (schema_key ''a"b'')) ''{'' = (''{'', Inr ''"a"b":null}'')
    \<and> \<not> is_json ''{"a"b":null}''
    \<and> heal (Some schema_required_object) ''{'' = (''{'', Inl TypeError))\<close>
proof -
  have a: \<open>is_json (text_after_colon @ ''1}'')
      \<and> heal None text_after_colon = (text_after_colon, Inr ''}'')
      \<and> \<not> is_json (text_after_colon @ ''}'')\<close>
    by (simp add: text_after_colon_def is_json_def is_ws_def is_digit_def eval_defs)
  have b: \<open>is_json ''"a"'' \<and> resumable_cut ''"a''
      \<and> heal None ''"a'' = ([], Inr ''"a'') \<and> \<not> is_json ''"a''\<close>
    by (simp add: is_json_def resumable_cut_def is_ws_def is_digit_def eval_defs)
  have c1: "search_opener long_preamble = None \<and> length long_preamble = 501"
    by (simp add: long_preamble_def search_opener_replicate is_opener_def)
  have c2: \<open>is_json ''[1]'' \<and> resumable_cut ''[1'' \<and> \<not> is_json ''[1"''\<close>
    by (simp add: is_json_def resumable_cut_def is_ws_def is_digit_def)
  have c3: \<open>finish ((started None)\<lparr>inString := True\<rparr>) = Inr ''"''\<close>
    by (simp add: finish_def started_def new_StreamHealer_def)
  have c4: \<open>strip_preamble (long_preamble @ ''[1'' @ ''"'') = ''[1"''\<close>
    by (simp add: strip_preamble_def long_preamble_def search_opener_replicate is_opener_def)
  have d: \<open>is_json ''{}'' \<and> resumable_cut ''{''
      \<and> heal (Some (schema_key ''a"b'')) ''{'' = (''{'', Inr ''"a"b":null}'')
      \<and> \<not> is_json ''{"a"b":null}''
      \<and> heal (Some schema_required_object) ''{'' = (''{'', Inl TypeError)\<close>
    by (simp add: is_json_def resumable_cut_def is_ws_def is_digit_def eval_defs schema_key_def
        schema_required_object_def)
  have c5: \<open>snd (process_all (new_StreamHealer None) [long_preamble, ''[1''])
        = [long_preamble, ''[1'']
      \<and> finish (fst (process_all (new_StreamHealer None) [long_preamble, ''[1''])) = Inr ''"''\<close>
    using c3 by (simp only: long_preamble_process fst_conv snd_conv simp_thms)
  from a b c1 c2 c4 c5 d show ?thesis
    by (simp only: simp_thms)
qed

text \<open>
  Claim C1, amended.  Let the input be a preamble without opener, of at most 500
  characters, followed by a prefix of a JSON document that starts with an opener and is cut
  at a resumable point: right after an opening bracket, after a complete value, inside a
  number that is complete so far, or inside a string value outside an escape sequence.
  Fed in any chunking to a fresh healer without schema, or with a schema in which each
  \<^verbatim>\<open>required\<close> the healer can read (that of a sub-schema of type \<^verbatim>\<open>'object'\<close>) is absent,
  falsy or an array of keys whose string conversion is the content of a JSON string, the
  outputs of \<open>process\<close> concatenate to the input without its preamble, \<open>finish\<close> returns a
  text, and the concatenation of both is a JSON document.
\<close>

theorem healed_output_is_json:
  assumes "\<forall>c \<in> set pre. \<not> is_opener c" and "length pre \<le> 500" and "is_opener c0"
    and "is_json (c0 # rest @ sfx)" and "resumable_cut (c0 # rest)"
    and "concat chunks = pre @ c0 # rest"
    and "json_keys_schema sch"
    and "process_all (new_StreamHealer sch) chunks = (h, outs)"
  shows "concat outs = c0 # rest
       \<and> (\<exists>F. finish h = Inr F \<and> is_json (concat outs @ F))"
proof -
  from assms(5) obtain m stk where run: "jrun (MValue, []) (c0 # rest) = Some (m, stk)"
    and res: "resumable m"
    by (auto simp add: resumable_cut_def split: option.splits)
  have "\<not> hasStartedJson (new_StreamHealer sch)" "buffer (new_StreamHealer sch) = []"
    by (simp_all add: new_StreamHealer_def)
  with process_all_preamble [of "new_StreamHealer sch" chunks pre c0 rest] assms(1-3,6)
  obtain outs' where
    "process_all (new_StreamHealer sch) chunks
       = (analyzeState ((new_StreamHealer sch)\<lparr>buffer := [], hasStartedJson := True\<rparr>) (c0 # rest), outs')"
    and o: "concat outs' = c0 # rest"
    by auto
  with assms(8) have h: "h = analyzeState (started sch) (c0 # rest)" and outs: "outs = outs'"
    by (simp_all add: started_def)
  have i: "hasStartedJson h" "schema h = sch"
    by (simp_all add: h)
  from sim_run [OF sim_started run] have "sim (m, stk) h" by (simp only: h)
  from finish_accepts [OF this res i(1)] assms(7) i(2)
  obtain F m' where F: "finish h = Inr F" "jrun (m, stk) F = Some (m', [])" "jfinal m'"
    by auto
  from run F(2) have "jrun (MValue, []) ((c0 # rest) @ F) = Some (m', [])"
    by (simp only: jrun_append option.case)
  with F(3) have "is_json ((c0 # rest) @ F)"
    by (simp add: is_json_def)
  with F(1) o outs show ?thesis by auto
qed

theorem healed_output_is_json_witness:
  \<open>search_opener ''Sure: '' = None \<and> length ''Sure: '' \<le> 500 \<and> is_opener (CHR ''{'')
   \<and> is_json (CHR ''{'' # ''"a":1'' @ ''}'') \<and> resumable_cut (CHR ''{'' # ''"a":1'')
   \<and> concat chunks_sure = ''Sure: '' @ CHR ''{'' # ''"a":1''
   \<and> json_keys_schema (Some schema_ab_typed)
   \<and> concat (snd (process_all (new_StreamHealer (Some schema_ab_typed)) chunks_sure)) = ''{"a":1''
   \<and> finish (fst (process_all (new_StreamHealer (Some schema_ab_typed)) chunks_sure))
        = Inr '',"b":null}''
   \<and> is_json ''{"a":1,"b":null}''\<close>
proof -
  let ?sch = "Some schema_ab_typed"
  let ?h = "fst (process_all (new_StreamHealer ?sch) chunks_sure)"
  let ?outs = "snd (process_all (new_StreamHealer ?sch) chunks_sure)"
  have a: "\<forall>c \<in> set ''Sure: ''. \<not> is_opener c" "length ''Sure: '' \<le> 500" "is_opener (CHR ''{'')"
    \<open>concat chunks_sure = ''Sure: '' @ CHR ''{'' # ''"a":1''\<close>
    by (simp_all add: is_opener_def chunks_sure_def)
  have j: \<open>is_json (CHR ''{'' # ''"a":1'' @ ''}'')\<close> \<open>resumable_cut (CHR ''{'' # ''"a":1'')\<close>
    by (simp_all add: is_json_def resumable_cut_def is_ws_def is_digit_def)
  have ps: "json_keys_schema ?sch"
    by (simp add: json_keys_schema_def schema_ab_typed_def)
  have pr: "process_all (new_StreamHealer ?sch) chunks_sure = (?h, ?outs)"
    by simp
  have F: \<open>finish ?h = Inr '',"b":null}''\<close>
    by (simp add: eval_defs chunks_sure_def schema_ab_typed_def)
  from healed_output_is_json [OF a(1) a(2) a(3) j(1) j(2) a(4) ps pr] F
  have \<open>concat ?outs = ''{"a":1'' \<and> is_json (''{"a":1'' @ '',"b":null}'')\<close>
    by auto
  moreover have "search_opener ''Sure: '' = None" by simp
  ultimately show ?thesis using a j ps F by simp
qed

end
